theory Spec2Isabelle
  imports Complex_Main "HOL-Library.AList"
begin

section \<open>Protocol types (server/src/protocol.ts)\<close>

text \<open>
  JavaScript strings are sequences of UTF-16 code units; a \<open>string\<close> here is the list of
  code units, one \<open>char\<close> per unit, so \<open>length\<close> is the source's \<open>.length\<close> and
  \<open>take n\<close> is \<open>.slice(0, n)\<close>. A finite JavaScript number is modelled by its value
  as a \<open>real\<close>; the code under study only compares and copies numbers, which is exact.
  Sequence numbers are \<open>nat\<close>, wall-clock readings of \<open>Date.now()\<close> are \<open>int\<close>.
\<close>

datatype Mode = Edit | View

datatype Tool = Brush | Eraser | Rectangle | Circle | Square

type_synonym point = "real \<times> real"

text \<open>\<open>StrokeStart | StrokePoints | StrokeEnd\<close>, shared by \<open>ClientOp\<close> and \<open>ServerOp\<close>.\<close>

datatype StrokeOp =
    StrokeStart string Tool string real real real
      \<comment> \<open>strokeId, tool, color, w, x, y\<close>
  | StrokePoints string "point list"
      \<comment> \<open>strokeId, pts\<close>
  | StrokeEnd string
      \<comment> \<open>strokeId\<close>

datatype ClientOp = CStroke StrokeOp | UndoReq | RedoReq

datatype ServerOp = SStroke StrokeOp | UndoApplied string | RedoApplied string

record StrokeRecord =
  rec_id :: string
  rec_userId :: string
  rec_tool :: Tool
  rec_color :: string
  rec_w :: real
  rec_points :: "point list"
  rec_committed :: bool
  createdAt :: int
  updatedAt :: int

record OpEnvelope =
  env_seq :: nat
  env_op :: ServerOp
  env_by :: string
  env_ts :: int

section \<open>JavaScript containers\<close>

text \<open>
  A \<open>Set<string>\<close> is the list of its elements in insertion order: \<open>add\<close> appends an
  element that is not yet there, \<open>delete\<close> removes it, \<open>Array.from\<close> is the list itself.
\<close>

type_synonym jsset = "string list"

definition set_has :: "jsset \<Rightarrow> string \<Rightarrow> bool" where
  "set_has xs x = (x \<in> set xs)"

definition set_add :: "string \<Rightarrow> jsset \<Rightarrow> jsset" where
  "set_add x xs = (if x \<in> set xs then xs else xs @ [x])"

definition set_delete :: "string \<Rightarrow> jsset \<Rightarrow> jsset" where
  "set_delete x xs = removeAll x xs"

definition new_Set :: "string list \<Rightarrow> jsset" where
  "new_Set xs = fold set_add xs []"

text \<open>
  A \<open>Map<K, V>\<close> is an association list in insertion order: \<open>get\<close> is \<open>map_of\<close>,
  \<open>set\<close> replaces the value of a key in place or appends a new entry, \<open>delete\<close> drops
  the key.
\<close>

type_synonym ('k, 'v) jsmap = "('k \<times> 'v) list"

definition map_get :: "('k, 'v) jsmap \<Rightarrow> 'k \<Rightarrow> 'v option" where
  "map_get m k = map_of m k"

definition map_has :: "('k, 'v) jsmap \<Rightarrow> 'k \<Rightarrow> bool" where
  "map_has m k = (map_of m k \<noteq> None)"

definition map_set :: "'k \<Rightarrow> 'v \<Rightarrow> ('k, 'v) jsmap \<Rightarrow> ('k, 'v) jsmap" where
  "map_set k v m = AList.update k v m"

definition map_delete :: "'k \<Rightarrow> ('k, 'v) jsmap \<Rightarrow> ('k, 'v) jsmap" where
  "map_delete k m = AList.delete k m"

definition map_values :: "('k, 'v) jsmap \<Rightarrow> 'v list" where
  "map_values m = map snd m"

section \<open>The drawing state (server/src/drawing-state.ts)\<close>

record DrawingState =
  strokes :: "(string, StrokeRecord) jsmap"
  committed :: jsset
  undone :: jsset
  committedOrder :: "string list"
  redoStack :: "string list"

definition new_DrawingState :: DrawingState where
  "new_DrawingState =
     \<lparr> strokes = [], committed = [], undone = [], committedOrder = [], redoStack = [] \<rparr>"

text \<open>
  The result of \<open>applyClientOp\<close>: \<open>Inl err\<close> is \<open>{ok: false, err}\<close>, \<open>Inr b\<close> is
  \<open>{ok: true, broadcast: b}\<close> with \<open>None\<close> for \<open>null\<close>.
\<close>

type_synonym apply_result = "string + ServerOp option"

text \<open>
  The \<open>undo\<close> loop \<open>for (let i = committedOrder.length - 1; i >= 0; i--)\<close>. The second
  argument is \<open>i + 1\<close>, so that \<open>0\<close> is the loop's exit.
\<close>

fun undo_loop :: "DrawingState \<Rightarrow> nat \<Rightarrow> DrawingState \<times> apply_result" where
  "undo_loop s 0 = (s, Inr None)"
| "undo_loop s (Suc i) =
     (let sid = committedOrder s ! i in
      if \<not> set_has (committed s) sid then undo_loop s i
      else if set_has (undone s) sid then undo_loop s i
      else (s\<lparr> undone := set_add sid (undone s), redoStack := redoStack s @ [sid] \<rparr>,
            Inr (Some (UndoApplied sid))))"

text \<open>
  The \<open>redo\<close> loop \<open>while (redoStack.length > 0)\<close>: \<open>pop\<close> takes the last element of the
  array.
\<close>

function redo_loop :: "DrawingState \<Rightarrow> DrawingState \<times> apply_result" where
  "redo_loop s =
     (if redoStack s = [] then (s, Inr None)
      else
        let sid = last (redoStack s);
            s1 = s\<lparr> redoStack := butlast (redoStack s) \<rparr>
        in if \<not> set_has (committed s1) sid then redo_loop s1
           else if \<not> set_has (undone s1) sid then redo_loop s1
           else (s1\<lparr> undone := set_delete sid (undone s1) \<rparr>,
                 Inr (Some (RedoApplied sid))))"
  by pat_completeness auto
termination
  by (relation "measure (\<lambda>s. length (redoStack s))") auto

declare redo_loop.simps [simp del]

text \<open>
  \<open>applyClientOp(userId, op)\<close>, with the reading \<open>now\<close> of \<open>Date.now()\<close> as a parameter.
  The stroke record is an object held by the map, so the mutation of \<open>rec\<close> is an update of
  the map's entry. The \<open>default\<close> branch of the \<open>switch\<close> has no value of \<open>ClientOp\<close>.
\<close>

fun applyClientOp ::
  "int \<Rightarrow> string \<Rightarrow> DrawingState \<Rightarrow> ClientOp \<Rightarrow> DrawingState \<times> apply_result" where
  "applyClientOp now userId s (CStroke (StrokeStart strokeId tool color w x y)) =
     (if map_has (strokes s) strokeId then (s, Inl ''strokeId already exists'')
      else
        let rec = \<lparr> rec_id = strokeId, rec_userId = userId, rec_tool = tool,
                    rec_color = color, rec_w = w, rec_points = [(x, y)],
                    rec_committed = False, createdAt = now, updatedAt = now \<rparr>
        in (s\<lparr> strokes := map_set strokeId rec (strokes s) \<rparr>,
            Inr (Some (SStroke (StrokeStart strokeId tool color w x y)))))"
| "applyClientOp now userId s (CStroke (StrokePoints strokeId pts)) =
     (case map_get (strokes s) strokeId of
        None \<Rightarrow> (s, Inl ''unknown strokeId'')
      | Some rec \<Rightarrow>
          if rec_committed rec then (s, Inl ''stroke already committed'')
          else if rec_userId rec \<noteq> userId then (s, Inl ''stroke owned by another user'')
          else
            let rec' = rec\<lparr> rec_points := rec_points rec @ pts, updatedAt := now \<rparr>
            in (s\<lparr> strokes := map_set strokeId rec' (strokes s) \<rparr>,
                Inr (Some (SStroke (StrokePoints strokeId pts)))))"
| "applyClientOp now userId s (CStroke (StrokeEnd strokeId)) =
     (case map_get (strokes s) strokeId of
        None \<Rightarrow> (s, Inl ''unknown strokeId'')
      | Some rec \<Rightarrow>
          if rec_committed rec then (s, Inl ''stroke already committed'')
          else if rec_userId rec \<noteq> userId then (s, Inl ''stroke owned by another user'')
          else
            let rec' = rec\<lparr> rec_committed := True, updatedAt := now \<rparr>
            in (s\<lparr> strokes := map_set strokeId rec' (strokes s),
                   committed := set_add strokeId (committed s),
                   committedOrder := committedOrder s @ [strokeId],
                   redoStack := [],
                   undone := set_delete strokeId (undone s) \<rparr>,
                Inr (Some (SStroke (StrokeEnd strokeId)))))"
| "applyClientOp now userId s UndoReq = undo_loop s (length (committedOrder s))"
| "applyClientOp now userId s RedoReq = redo_loop s"

text \<open>\<open>getSnapshot()\<close>: the sync payload for late joiners.\<close>

record Snapshot =
  snap_strokes :: "StrokeRecord list"
  snap_undone :: "string list"
  snap_inProgress :: "StrokeRecord list"

definition getSnapshot :: "DrawingState \<Rightarrow> Snapshot" where
  "getSnapshot s =
     \<lparr> snap_strokes = filter rec_committed (map_values (strokes s)),
       snap_undone = undone s,
       snap_inProgress = filter (\<lambda>rec. \<not> rec_committed rec) (map_values (strokes s)) \<rparr>"

record DrawingStatePersisted =
  p_seq :: nat
  p_strokes :: "StrokeRecord list"
  p_undone :: "string list"
  p_committedOrder :: "string list"
  p_redoStack :: "string list"

text \<open>The body of the loop of \<open>exportPersisted\<close> over \<open>committedOrder\<close>.\<close>

definition export_step ::
  "(string, StrokeRecord) jsmap \<Rightarrow> string \<Rightarrow> StrokeRecord list \<Rightarrow> StrokeRecord list" where
  "export_step m sid acc =
     (case map_get m sid of
        None \<Rightarrow> acc
      | Some rec \<Rightarrow> if rec_committed rec then acc @ [rec] else acc)"

definition exportPersisted :: "nat \<Rightarrow> DrawingState \<Rightarrow> DrawingStatePersisted" where
  "exportPersisted n s =
     \<lparr> p_seq = n,
       p_strokes = fold (export_step (strokes s)) (committedOrder s) [],
       p_undone = undone s,
       p_committedOrder = committedOrder s,
       p_redoStack = redoStack s \<rparr>"

text \<open>The body of the loop of \<open>fromPersisted\<close> over \<open>p.strokes\<close>.\<close>

definition restore_step :: "StrokeRecord \<Rightarrow> DrawingState \<Rightarrow> DrawingState" where
  "restore_step rec ds =
     ds\<lparr> strokes := map_set (rec_id rec) rec (strokes ds),
         committed := set_add (rec_id rec) (committed ds) \<rparr>"

definition fromPersisted :: "DrawingStatePersisted \<Rightarrow> DrawingState" where
  "fromPersisted p =
     (fold restore_step (p_strokes p) new_DrawingState)
       \<lparr> undone := new_Set (p_undone p),
         committedOrder := p_committedOrder p,
         redoStack := p_redoStack p \<rparr>"

section \<open>The op validator (server/src/protocol.ts)\<close>

text \<open>
  An untrusted payload. \<open>JNum\<close> is a finite number; \<open>JNonFinite\<close> stands for \<open>NaN\<close> and
  the two infinities, which \<open>isNum\<close> rejects. An object is the list of its own properties.
\<close>

datatype jsval =
    JUndefined
  | JNull
  | JBool bool
  | JNum real
  | JNonFinite
  | JStr string
  | JArr "jsval list"
  | JObj "(string \<times> jsval) list"

text \<open>\<open>raw.k\<close> for the property names the validators read; absent properties are \<open>undefined\<close>.\<close>

fun get_prop :: "jsval \<Rightarrow> string \<Rightarrow> jsval" where
  "get_prop (JObj kvs) k = (case map_of kvs k of None \<Rightarrow> JUndefined | Some v \<Rightarrow> v)"
| "get_prop _ k = JUndefined"

fun isObj :: "jsval \<Rightarrow> bool" where
  "isObj (JObj kvs) = True"
| "isObj (JArr vs) = True"
| "isObj _ = False"

text \<open>
  The type guards return the typed view of the value when the check passes, \<open>None\<close> when it
  fails.
\<close>

fun isNum :: "jsval \<Rightarrow> real option" where
  "isNum (JNum r) = Some r"
| "isNum _ = None"

fun isStr :: "jsval \<Rightarrow> string option" where
  "isStr (JStr s) = (if length s > 0 then Some s else None)"
| "isStr _ = None"

fun isTool :: "jsval \<Rightarrow> Tool option" where
  "isTool (JStr s) =
     (if s = ''brush'' then Some Brush
      else if s = ''eraser'' then Some Eraser
      else if s = ''rectangle'' then Some Rectangle
      else if s = ''circle'' then Some Circle
      else if s = ''square'' then Some Square
      else None)"
| "isTool _ = None"

fun isPt :: "jsval \<Rightarrow> point option" where
  "isPt (JArr [a, b]) =
     (case isNum a of
        None \<Rightarrow> None
      | Some x \<Rightarrow> (case isNum b of None \<Rightarrow> None | Some y \<Rightarrow> Some (x, y)))"
| "isPt _ = None"

fun isPts_loop :: "jsval list \<Rightarrow> point list option" where
  "isPts_loop [] = Some []"
| "isPts_loop (p # ps) =
     (case isPt p of
        None \<Rightarrow> None
      | Some q \<Rightarrow> (case isPts_loop ps of None \<Rightarrow> None | Some qs \<Rightarrow> Some (q # qs)))"

fun isPts :: "jsval \<Rightarrow> point list option" where
  "isPts (JArr ps) = isPts_loop ps"
| "isPts _ = None"

record JoinPayload =
  jp_roomId :: string
  jp_name :: "string option"
  jp_mode :: Mode
  jp_clientId :: "string option"

definition validateJoin :: "jsval \<Rightarrow> string + JoinPayload" where
  "validateJoin raw =
     (if \<not> isObj raw then Inl ''join payload must be an object''
      else case isStr (get_prop raw ''roomId'') of
        None \<Rightarrow> Inl ''roomId is required''
      | Some roomId \<Rightarrow>
          let name = (case get_prop raw ''name'' of JStr n \<Rightarrow> Some (take 32 n) | _ \<Rightarrow> None);
              mode = (if get_prop raw ''mode'' = JStr ''view'' then View else Edit);
              clientId = (case get_prop raw ''clientId'' of
                            JStr c \<Rightarrow> if length c \<le> 64 then Some c else None
                          | _ \<Rightarrow> None)
          in Inr \<lparr> jp_roomId = roomId, jp_name = name, jp_mode = mode,
                   jp_clientId = clientId \<rparr>)"

definition validate_stroke_start :: "jsval \<Rightarrow> string + ClientOp" where
  "validate_stroke_start raw =
     (case isStr (get_prop raw ''strokeId'') of
        None \<Rightarrow> Inl ''strokeId required''
      | Some strokeId \<Rightarrow>
     (case isTool (get_prop raw ''tool'') of
        None \<Rightarrow> Inl ''tool must be brush|eraser|rectangle|circle|square''
      | Some tool \<Rightarrow>
     (case isStr (get_prop raw ''color'') of
        None \<Rightarrow> Inl ''color required''
      | Some color \<Rightarrow>
     (case isNum (get_prop raw ''w'') of
        None \<Rightarrow> Inl ''w required''
      | Some raw_w \<Rightarrow>
     (case (isNum (get_prop raw ''x''), isNum (get_prop raw ''y'')) of
        (Some x, Some y) \<Rightarrow>
          let w = max 1 (min 64 raw_w)
          in Inr (CStroke (StrokeStart strokeId tool color w x y))
      | _ \<Rightarrow> Inl ''x,y required'')))))"

definition validate_stroke_points :: "jsval \<Rightarrow> string + ClientOp" where
  "validate_stroke_points raw =
     (case isStr (get_prop raw ''strokeId'') of
        None \<Rightarrow> Inl ''strokeId required''
      | Some strokeId \<Rightarrow>
     (case isPts (get_prop raw ''pts'') of
        None \<Rightarrow> Inl ''pts must be array of [x,y]''
      | Some raw_pts \<Rightarrow>
          let pts = take 200 raw_pts
          in Inr (CStroke (StrokePoints strokeId pts))))"

definition validate_stroke_end :: "jsval \<Rightarrow> string + ClientOp" where
  "validate_stroke_end raw =
     (case isStr (get_prop raw ''strokeId'') of
        None \<Rightarrow> Inl ''strokeId required''
      | Some strokeId \<Rightarrow> Inr (CStroke (StrokeEnd strokeId)))"

definition validateClientOp :: "jsval \<Rightarrow> string + ClientOp" where
  "validateClientOp raw =
     (if \<not> isObj raw then Inl ''op must be an object''
      else case isStr (get_prop raw ''t'') of
        None \<Rightarrow> Inl ''op.t is required''
      | Some t \<Rightarrow>
          if t = ''undo'' then Inr UndoReq
          else if t = ''redo'' then Inr RedoReq
          else if t = ''stroke_start'' then validate_stroke_start raw
          else if t = ''stroke_points'' then validate_stroke_points raw
          else if t = ''stroke_end'' then validate_stroke_end raw
          else Inl (''unknown op type: '' @ t))"

section \<open>Rooms and the session dispatcher (server/src/rooms.ts, server/src/server.ts)\<close>

record ServerUser =
  su_userId :: string
  su_name :: string
  su_color :: string
  su_mode :: Mode

record RoomUser = ServerUser +
  socketId :: string

record Room =
  roomId :: string
  seq :: nat
  users :: "(string, RoomUser) jsmap"
  drawing :: DrawingState
  lastPersistAt :: int

definition bumpSeq :: "Room \<Rightarrow> Room \<times> nat" where
  "bumpSeq room = (room\<lparr> seq := seq room + 1 \<rparr>, seq room + 1)"

definition getUser :: "Room \<Rightarrow> string \<Rightarrow> RoomUser option" where
  "getUser room sid = map_get (users room) sid"

text \<open>
  \<open>maybePersist()\<close>: the second component is the call of \<open>saveRoom(roomId, data)\<close>, when
  there is one.
\<close>

definition maybePersist ::
  "int \<Rightarrow> Room \<Rightarrow> Room \<times> (string \<times> DrawingStatePersisted) option" where
  "maybePersist now room =
     (if now - lastPersistAt room < 2000 then (room, None)
      else (room\<lparr> lastPersistAt := now \<rparr>,
            Some (roomId room, exportPersisted (seq room) (drawing room))))"

text \<open>
  The join handler resolves the user id from the validated payload and the connection id:
  \<open>(clientId && clientId.length > 0) ? clientId : socket.id\<close>.
\<close>

definition join_userId :: "JoinPayload \<Rightarrow> string \<Rightarrow> string" where
  "join_userId v socket_id =
     (case jp_clientId v of
        None \<Rightarrow> socket_id
      | Some clientId \<Rightarrow> if length clientId > 0 then clientId else socket_id)"

record Socket =
  socket_id :: string
  data_roomId :: "string option"

text \<open>
  The acknowledgements of the \<open>msg\<close> handler: \<open>{ok: false, err}\<close>, \<open>{ok: true, noOp: true}\<close>
  and \<open>{ok: true, seq}\<close>.
\<close>

datatype Ack = AckErr string | AckNoOp | AckSeq nat

text \<open>
  What one run of the \<open>msg\<close> handler does: the rooms afterwards, the acknowledgement, the
  \<open>op\<close> envelopes emitted (each with the room it is broadcast to), and the snapshot saved.
\<close>

record MsgOutcome =
  out_rooms :: "(string, Room) jsmap"
  out_ack :: Ack
  out_emitted :: "(string \<times> OpEnvelope) list"
  out_saved :: "(string \<times> DrawingStatePersisted) option"

definition rejected :: "(string, Room) jsmap \<Rightarrow> string \<Rightarrow> MsgOutcome" where
  "rejected rooms err =
     \<lparr> out_rooms = rooms, out_ack = AckErr err, out_emitted = [], out_saved = None \<rparr>"

fun isWrite :: "ClientOp \<Rightarrow> bool" where
  "isWrite (CStroke (StrokeStart strokeId tool color w x y)) = True"
| "isWrite (CStroke (StrokePoints strokeId pts)) = True"
| "isWrite (CStroke (StrokeEnd strokeId)) = True"
| "isWrite UndoReq = True"
| "isWrite RedoReq = True"

text \<open>
  The part of the handler after validation and the permission check. The drawing state is
  an object of the room that \<open>applyClientOp\<close> mutates, so the room holds the new state on
  every path. The readings of \<open>Date.now()\<close> during one run of the handler (in
  \<open>applyClientOp\<close>, for the envelope's \<open>ts\<close> and in \<open>maybePersist\<close>) are the one
  parameter \<open>now\<close>.
\<close>

definition dispatch_op ::
  "int \<Rightarrow> (string, Room) jsmap \<Rightarrow> string \<Rightarrow> Room \<Rightarrow> RoomUser \<Rightarrow> ClientOp \<Rightarrow> MsgOutcome" where
  "dispatch_op now rooms rid room user op =
     (case applyClientOp now (su_userId user) (drawing room) op of
        (d, Inl err) \<Rightarrow>
          \<lparr> out_rooms = map_set rid (room\<lparr> drawing := d \<rparr>) rooms,
            out_ack = AckErr err, out_emitted = [], out_saved = None \<rparr>
      | (d, Inr None) \<Rightarrow>
          \<lparr> out_rooms = map_set rid (room\<lparr> drawing := d \<rparr>) rooms,
            out_ack = AckNoOp, out_emitted = [], out_saved = None \<rparr>
      | (d, Inr (Some broadcast)) \<Rightarrow>
          let (room1, n) = bumpSeq (room\<lparr> drawing := d \<rparr>);
              env = \<lparr> env_seq = n, env_op = broadcast, env_by = su_userId user,
                      env_ts = now \<rparr>;
              (room2, saved) = maybePersist now room1
          in \<lparr> out_rooms = map_set rid room2 rooms,
               out_ack = AckSeq n, out_emitted = [(rid, env)], out_saved = saved \<rparr>)"

definition on_msg :: "int \<Rightarrow> (string, Room) jsmap \<Rightarrow> Socket \<Rightarrow> jsval \<Rightarrow> MsgOutcome" where
  "on_msg now rooms socket raw =
     (case data_roomId socket of
        None \<Rightarrow> rejected rooms ''not joined''
      | Some rid \<Rightarrow>
          if rid = [] then rejected rooms ''not joined''
          else
     (case map_get rooms rid of
        None \<Rightarrow> rejected rooms ''room missing''
      | Some room \<Rightarrow>
     (case getUser room (socket_id socket) of
        None \<Rightarrow> rejected rooms ''user missing''
      | Some user \<Rightarrow>
     (case validateClientOp raw of
        Inl err \<Rightarrow> rejected rooms err
      | Inr op \<Rightarrow>
          if isWrite op \<and> su_mode user = View
          then rejected rooms ''view-only user cannot modify canvas''
          else dispatch_op now rooms rid room user op))))"

section \<open>The client mirror and reorder buffer (client/src/net/socket.ts, roomStore)\<close>

record RoomState =
  st_connected :: bool
  st_roomId :: "string option"
  st_selfUserId :: "string option"
  st_seq :: nat
  st_users :: "(string, ServerUser) jsmap"
  st_strokes :: "(string, StrokeRecord) jsmap"
  st_undone :: jsset
  st_inProgress :: "(string, StrokeRecord) jsmap"

definition cloneStroke :: "StrokeRecord \<Rightarrow> StrokeRecord" where
  "cloneStroke s = s\<lparr> rec_points := map (\<lambda>p. (fst p, snd p)) (rec_points s) \<rparr>"

text \<open>
  \<open>applyOp(op, by)\<close> of the store. A copy \<open>new Map(m)\<close> or \<open>new Set(s)\<close> of a container
  has the entries of the original in the same order, so it is the same list. The readings of
  \<open>Date.now()\<close> are the parameter \<open>now\<close>; notifying the listeners changes no state.
\<close>

fun applyOp :: "int \<Rightarrow> ServerOp \<Rightarrow> string \<Rightarrow> RoomState \<Rightarrow> RoomState" where
  "applyOp now (SStroke (StrokeStart strokeId tool color w x y)) by st =
     (let rec = \<lparr> rec_id = strokeId, rec_userId = by, rec_tool = tool,
                 rec_color = color, rec_w = w, rec_points = [(x, y)],
                 rec_committed = False, createdAt = now, updatedAt = now \<rparr>
      in st\<lparr> st_inProgress := map_set strokeId rec (st_inProgress st) \<rparr>)"
| "applyOp now (SStroke (StrokePoints strokeId pts)) by st =
     (case map_get (st_inProgress st) strokeId of
        None \<Rightarrow> st
      | Some rec \<Rightarrow>
          let updatedRec = rec\<lparr> rec_points := rec_points rec @ pts, updatedAt := now \<rparr>
          in st\<lparr> st_inProgress := map_set strokeId updatedRec (st_inProgress st) \<rparr>)"
| "applyOp now (SStroke (StrokeEnd strokeId)) by st =
     (case map_get (st_inProgress st) strokeId of
        None \<Rightarrow> st
      | Some rec \<Rightarrow>
          let committedRec = rec\<lparr> rec_committed := True, updatedAt := now \<rparr>
          in st\<lparr> st_inProgress := map_delete strokeId (st_inProgress st),
                 st_strokes := map_set strokeId (cloneStroke committedRec) (st_strokes st),
                 st_undone := set_delete strokeId (st_undone st) \<rparr>)"
| "applyOp now (UndoApplied strokeId) by st =
     st\<lparr> st_undone := set_add strokeId (st_undone st) \<rparr>"
| "applyOp now (RedoApplied strokeId) by st =
     st\<lparr> st_undone := set_delete strokeId (st_undone st) \<rparr>"

definition applyEnvelope :: "int \<Rightarrow> OpEnvelope \<Rightarrow> RoomState \<Rightarrow> RoomState" where
  "applyEnvelope now env st = applyOp now (env_op env) (env_by env) (st\<lparr> st_seq := env_seq env \<rparr>)"

text \<open>The client: the reorder buffer together with the store it feeds.\<close>

record RealtimeClient =
  expectedSeq :: nat
  pending :: "(nat, OpEnvelope) jsmap"
  store :: RoomState

text \<open>The loop \<open>while (this.pending.has(this.expectedSeq))\<close> that flushes contiguous entries.\<close>

function flush_pending :: "int \<Rightarrow> RealtimeClient \<Rightarrow> RealtimeClient" where
  "flush_pending now c =
     (case map_get (pending c) (expectedSeq c) of
        None \<Rightarrow> c
      | Some next \<Rightarrow>
          flush_pending now
            (c\<lparr> pending := map_delete (expectedSeq c) (pending c),
                store := applyEnvelope now next (store c),
                expectedSeq := expectedSeq c + 1 \<rparr>))"
  by pat_completeness auto
termination
proof (relation "measure (\<lambda>(now, c). length (pending c))")
  show "wf (measure (\<lambda>(now, c). length (pending c)))"
    by simp
next
  fix now :: int and c :: RealtimeClient and x2 :: OpEnvelope
  assume found: "map_get (pending c) (expectedSeq c) = Some x2"
  have shorter: "map_of m k = Some v \<Longrightarrow> length (AList.delete k m) < length m"
    for m :: "(nat, OpEnvelope) jsmap" and k v
    by (induction m) (auto simp: less_Suc_eq_le AList.delete_eq split: if_splits)
  from found have "length (map_delete (expectedSeq c) (pending c)) < length (pending c)"
    unfolding map_get_def map_delete_def by (rule shorter)
  then show "((now, c\<lparr> pending := map_delete (expectedSeq c) (pending c),
                        store := applyEnvelope now x2 (store c),
                        expectedSeq := expectedSeq c + 1 \<rparr>), (now, c))
             \<in> measure (\<lambda>(now, c). length (pending c))"
    by simp
qed

declare flush_pending.simps [simp del]

definition handleEnvelope :: "int \<Rightarrow> RealtimeClient \<Rightarrow> OpEnvelope \<Rightarrow> RealtimeClient" where
  "handleEnvelope now c env =
     (case st_roomId (store c) of
        None \<Rightarrow> c
      | Some rid \<Rightarrow>
          if rid = [] then c
          else if env_seq env < expectedSeq c then c
          else if env_seq env > expectedSeq c
            then c\<lparr> pending := map_set (env_seq env) env (pending c) \<rparr>
          else flush_pending now
                 (c\<lparr> store := applyEnvelope now env (store c),
                     expectedSeq := expectedSeq c + 1 \<rparr>))"

section \<open>Auxiliary notions for the properties\<close>

text \<open>A stroke id is active when it is committed and not undone.\<close>

definition active :: "DrawingState \<Rightarrow> string \<Rightarrow> bool" where
  "active s sid = (sid \<in> set (committed s) \<and> sid \<notin> set (undone s))"

text \<open>The state and result of an \<open>undo\<close> that has chosen \<open>sid\<close>.\<close>

definition undo_applied :: "DrawingState \<Rightarrow> string \<Rightarrow> DrawingState \<times> apply_result" where
  "undo_applied s sid =
     (s\<lparr> undone := set_add sid (undone s), redoStack := redoStack s @ [sid] \<rparr>,
      Inr (Some (UndoApplied sid)))"

text \<open>A state with two committed strokes, the later one undone.\<close>

definition ds_example :: DrawingState where
  "ds_example =
     \<lparr> strokes = [], committed = [''a'', ''b''], undone = [''b''],
       committedOrder = [''a'', ''b''], redoStack = [''b''] \<rparr>"

text \<open>A stroke in progress, and a state that holds only it.\<close>

definition rec_example :: StrokeRecord where
  "rec_example =
     \<lparr> rec_id = ''a'', rec_userId = ''u1'', rec_tool = Brush, rec_color = ''#000'',
       rec_w = 4, rec_points = [(0, 0)], rec_committed = False,
       createdAt = 10, updatedAt = 10 \<rparr>"

definition ds_in_progress :: DrawingState where
  "ds_in_progress = new_DrawingState\<lparr> strokes := [(''a'', rec_example)] \<rparr>"

text \<open>
  The drawing states that a room goes through: the empty state, and every state that a
  successful \<open>applyClientOp\<close> leads to from one of them.
\<close>

inductive reachable :: "DrawingState \<Rightarrow> bool" where
  reachable_init: "reachable new_DrawingState"
| reachable_step:
    "reachable s \<Longrightarrow> applyClientOp now uid s op = (s', Inr b) \<Longrightarrow> reachable s'"

text \<open>
  The two stated invariants of the undo machinery, with the fact that makes them inductive:
  no id is twice on the redo stack.
\<close>

definition undo_inv :: "DrawingState \<Rightarrow> bool" where
  "undo_inv s =
     (set (undone s) \<subseteq> set (committed s)
      \<and> set (redoStack s) \<subseteq> set (committed s) \<inter> set (undone s)
      \<and> distinct (redoStack s))"

text \<open>
  The number of committed strokes that are not undone, counted along \<open>committedOrder\<close>,
  the history that \<open>undo\<close> scans.
\<close>

definition active_count :: "DrawingState \<Rightarrow> nat" where
  "active_count s = length (remdups (filter (active s) (committedOrder s)))"

text \<open>
  The same op applied once for each call in a list; a call is the clock reading and the
  user of that call.
\<close>

definition apply_all :: "(int \<times> string) list \<Rightarrow> ClientOp \<Rightarrow> DrawingState \<Rightarrow> DrawingState" where
  "apply_all calls op s = fold (\<lambda>(now, uid) s. fst (applyClientOp now uid s op)) calls s"

text \<open>
  Well-formedness of the stroke registry: the keys of the map are distinct, every record is
  stored under its own id, and a record with the committed flag has its id in
  \<open>committedOrder\<close>.
\<close>

definition ds_wf :: "DrawingState \<Rightarrow> bool" where
  "ds_wf s =
     (distinct (map fst (strokes s))
      \<and> (\<forall>(k, r) \<in> set (strokes s).
            rec_id r = k \<and> (rec_committed r \<longrightarrow> k \<in> set (committedOrder s))))"

text \<open>The stroke of \<open>rec_example\<close> committed, then undone; and a second stroke in progress.\<close>

definition ds_committed :: DrawingState where
  "ds_committed =
     \<lparr> strokes = [(''a'', rec_example\<lparr> rec_committed := True, updatedAt := 11 \<rparr>)],
       committed = [''a''], undone = [], committedOrder = [''a''], redoStack = [] \<rparr>"

definition ds_undone :: DrawingState where
  "ds_undone = ds_committed\<lparr> undone := [''a''], redoStack := [''a''] \<rparr>"

definition ds_mixed :: DrawingState where
  "ds_mixed =
     ds_undone\<lparr> strokes :=
       strokes ds_undone @ [(''b'', rec_example\<lparr> rec_id := ''b'', rec_userId := ''u2'' \<rparr>)] \<rparr>"

text \<open>
  A connection that has joined room \<open>rid\<close> and whose user may edit: the facts that the
  \<open>msg\<close> handler checks before it validates and applies an op.
\<close>

definition joined_editor ::
  "(string, Room) jsmap \<Rightarrow> Socket \<Rightarrow> string \<Rightarrow> Room \<Rightarrow> RoomUser \<Rightarrow> bool" where
  "joined_editor rooms socket rid room user =
     (data_roomId socket = Some rid \<and> rid \<noteq> [] \<and> map_get rooms rid = Some room
      \<and> getUser room (socket_id socket) = Some user \<and> su_mode user = Edit)"

text \<open>The sequence counter of a room of the rooms manager, if the room is there.\<close>

definition seq_of :: "(string, Room) jsmap \<Rightarrow> string \<Rightarrow> nat option" where
  "seq_of rooms rid = map_option seq (map_get rooms rid)"

text \<open>
  The user id that a join resolves for a connection: \<open>validateJoin\<close> followed by the
  choice between \<open>clientId\<close> and the connection id.
\<close>

definition resolve_userId :: "jsval \<Rightarrow> string \<Rightarrow> string option" where
  "resolve_userId raw conn_id =
     (case validateJoin raw of Inl err \<Rightarrow> None | Inr v \<Rightarrow> Some (join_userId v conn_id))"

text \<open>
  The entries buffered under \<open>k\<close>, \<open>k + 1\<close>, ... up to the first sequence number that has
  no entry.
\<close>

definition contiguous_run :: "(nat, OpEnvelope) jsmap \<Rightarrow> nat \<Rightarrow> OpEnvelope list \<Rightarrow> bool" where
  "contiguous_run p k es =
     ((\<forall>i < length es. map_get p (k + i) = Some (es ! i)) \<and> map_get p (k + length es) = None)"

text \<open>The store and the client as they are constructed, before any sync.\<close>

definition new_RoomState :: RoomState where
  "new_RoomState =
     \<lparr> st_connected = False, st_roomId = None, st_selfUserId = None, st_seq = 0,
       st_users = [], st_strokes = [], st_undone = [], st_inProgress = [] \<rparr>"

definition new_RealtimeClient :: RealtimeClient where
  "new_RealtimeClient = \<lparr> expectedSeq = 1, pending = [], store = new_RoomState \<rparr>"

text \<open>Example values: a room with one editing user, payloads, envelopes, a synced client.\<close>

definition user_example :: RoomUser where
  "user_example =
     \<lparr> su_userId = ''u1'', su_name = ''Ann'', su_color = ''#ef4444'', su_mode = Edit,
       socketId = ''sock1'' \<rparr>"

definition room_example :: Room where
  "room_example =
     \<lparr> roomId = ''r1'', seq = 7, users = [(''sock1'', user_example)],
       drawing = new_DrawingState, lastPersistAt = 0 \<rparr>"

definition socket_example :: Socket where
  "socket_example = \<lparr> socket_id = ''sock1'', data_roomId = Some ''r1'' \<rparr>"

definition room_drawing :: Room where
  "room_drawing = room_example\<lparr> drawing := ds_in_progress \<rparr>"

definition raw_start :: "real \<Rightarrow> jsval" where
  "raw_start width =
     JObj [(''t'', JStr ''stroke_start''), (''strokeId'', JStr ''s1''), (''tool'', JStr ''brush''),
           (''color'', JStr ''#000''), (''w'', JNum width), (''x'', JNum 0), (''y'', JNum 0)]"

definition raw_join :: "string \<Rightarrow> jsval" where
  "raw_join clientId = JObj [(''roomId'', JStr ''r1''), (''clientId'', JStr clientId)]"

definition raw_points :: jsval where
  "raw_points = JObj [(''t'', JStr ''stroke_points''), (''strokeId'', JStr ''a''), (''pts'', JArr [])]"

definition env_example :: "nat \<Rightarrow> ServerOp \<Rightarrow> OpEnvelope" where
  "env_example n op = \<lparr> env_seq = n, env_op = op, env_by = ''u1'', env_ts = 1000 \<rparr>"

definition client_synced :: RealtimeClient where
  "client_synced =
     \<lparr> expectedSeq = 5, pending = [],
       store = new_RoomState\<lparr> st_roomId := Some ''r1'', st_seq := 4 \<rparr> \<rparr>"

text \<open>
  A run of calls of \<open>applyClientOp\<close>, each with its clock reading, user and op; a call that
  fails leaves the state as it was.
\<close>

definition run_calls :: "(int \<times> string \<times> ClientOp) list \<Rightarrow> DrawingState \<Rightarrow> DrawingState" where
  "run_calls calls s = fold (\<lambda>(now, uid, op) s. fst (applyClientOp now uid s op)) calls s"

text \<open>
  The undo and redo requests among the ops of a run, in order; and a run without
  \<open>stroke_end\<close>.
\<close>

definition is_history_op :: "ClientOp \<Rightarrow> bool" where
  "is_history_op op = (op = UndoReq \<or> op = RedoReq)"

fun is_commit :: "ClientOp \<Rightarrow> bool" where
  "is_commit (CStroke (StrokeEnd strokeId)) = True"
| "is_commit _ = False"

definition history_ops :: "(int \<times> string \<times> ClientOp) list \<Rightarrow> ClientOp list" where
  "history_ops calls = filter is_history_op (map (\<lambda>(now, uid, op). op) calls)"

definition commit_free :: "(int \<times> string \<times> ClientOp) list \<Rightarrow> bool" where
  "commit_free calls = (\<not> list_ex is_commit (map (\<lambda>(now, uid, op). op) calls))"

text \<open>An undo, a stroke started and extended by another user, then a redo.\<close>

definition calls_example :: "(int \<times> string \<times> ClientOp) list" where
  "calls_example =
     [(20, ''u1'', UndoReq),
      (21, ''u2'', CStroke (StrokeStart ''s9'' Brush ''#000'' 4 1 1)),
      (22, ''u2'', CStroke (StrokePoints ''s9'' [(2, 2)])),
      (23, ''u1'', RedoReq)]"

text \<open>
  Two states restored by \<open>fromPersisted\<close> from snapshots whose \<open>committedOrder\<close> is empty
  although they hold committed strokes: strokes \<open>b\<close> and \<open>c\<close> with \<open>c\<close> undone and on the
  redo stack, and a single stroke \<open>a\<close>.
\<close>

definition ds_unlisted :: DrawingState where
  "ds_unlisted =
     fromPersisted
       \<lparr> p_seq = 0,
         p_strokes = [rec_example\<lparr> rec_id := ''b'', rec_committed := True \<rparr>,
                      rec_example\<lparr> rec_id := ''c'', rec_committed := True \<rparr>],
         p_undone = [''c''], p_committedOrder = [], p_redoStack = [''c''] \<rparr>"

definition ds_orphan :: DrawingState where
  "ds_orphan =
     fromPersisted
       \<lparr> p_seq = 0, p_strokes = [rec_example\<lparr> rec_committed := True \<rparr>],
         p_undone = [], p_committedOrder = [], p_redoStack = [] \<rparr>"

section \<open>Properties\<close>

subsection \<open>The undo loop\<close>

lemma undo_loop_take:
  "k \<le> length (committedOrder s) \<Longrightarrow>
   undo_loop s k =
     (let xs = filter (active s) (take k (committedOrder s))
      in if xs = [] then (s, Inr None) else undo_applied s (last xs))"
proof (induction k)
  case 0
  then show ?case by simp
next
  case (Suc i)
  then have i: "i < length (committedOrder s)" by simp
  have tk: "take (Suc i) (committedOrder s) = take i (committedOrder s) @ [committedOrder s ! i]"
    using i by (simp add: take_Suc_conv_app_nth)
  show ?case
  proof (cases "active s (committedOrder s ! i)")
    case True
    then show ?thesis
      by (simp add: tk Let_def set_has_def active_def undo_applied_def)
  next
    case False
    with Suc show ?thesis
      by (auto simp add: tk Let_def set_has_def active_def)
  qed
qed

lemma undo_filter:
  "applyClientOp now uid s UndoReq =
     (let xs = filter (active s) (committedOrder s)
      in if xs = [] then (s, Inr None) else undo_applied s (last xs))"
  using undo_loop_take [of "length (committedOrder s)" s] by simp

lemma undo_none:
  "\<forall>sid \<in> set (committedOrder s). \<not> active s sid \<Longrightarrow>
   applyClientOp now uid s UndoReq = (s, Inr None)"
  by (simp only: undo_filter Let_def) (simp add: filter_empty_conv)

lemma undo_last:
  assumes "committedOrder s = pre @ sid # post" "active s sid" "\<forall>x \<in> set post. \<not> active s x"
  shows "applyClientOp now uid s UndoReq = undo_applied s sid"
proof -
  have "filter (active s) post = []"
    using assms(3) by (simp add: filter_empty_conv)
  then have "filter (active s) (committedOrder s) = filter (active s) pre @ [sid]"
    using assms(1,2) by simp
  then show ?thesis
    by (simp only: undo_filter Let_def) simp
qed

text \<open>
  Claim C1. An \<open>undo\<close> picks the last id of \<open>committedOrder\<close> that is in \<open>committed\<close> and
  not in \<open>undone\<close>: it adds it to \<open>undone\<close>, pushes it onto \<open>redoStack\<close> and broadcasts
  \<open>{t: undo, strokeId}\<close>. When \<open>committedOrder\<close> has no such id the call succeeds with no
  broadcast and the state as it was. The choice reads neither the user issuing the undo
  nor the stroke records (which hold the owners).
\<close>

theorem undo_selects_latest_active:
  "((\<forall>x \<in> set (committedOrder s). \<not> (x \<in> set (committed s) \<and> x \<notin> set (undone s))) \<longrightarrow>
      applyClientOp now uid s UndoReq = (s, Inr None))
   \<and> (committedOrder s = pre @ sid # post \<longrightarrow>
        sid \<in> set (committed s) \<and> sid \<notin> set (undone s) \<longrightarrow>
        (\<forall>x \<in> set post. \<not> (x \<in> set (committed s) \<and> x \<notin> set (undone s))) \<longrightarrow>
        applyClientOp now uid s UndoReq =
          (s\<lparr> undone := set_add sid (undone s), redoStack := redoStack s @ [sid] \<rparr>,
           Inr (Some (UndoApplied sid)))
        \<and> set (undone (fst (applyClientOp now uid s UndoReq))) = insert sid (set (undone s)))
   \<and> applyClientOp now' uid' (s\<lparr> strokes := m \<rparr>) UndoReq =
       (fst (applyClientOp now uid s UndoReq)\<lparr> strokes := m \<rparr>,
        snd (applyClientOp now uid s UndoReq))"
proof (intro conjI impI)
  assume "\<forall>x \<in> set (committedOrder s). \<not> (x \<in> set (committed s) \<and> x \<notin> set (undone s))"
  then show "applyClientOp now uid s UndoReq = (s, Inr None)"
    using undo_none [of s now uid] by (simp add: active_def)
next
  assume a: "committedOrder s = pre @ sid # post"
    "sid \<in> set (committed s) \<and> sid \<notin> set (undone s)"
    "\<forall>x \<in> set post. \<not> (x \<in> set (committed s) \<and> x \<notin> set (undone s))"
  then have u: "applyClientOp now uid s UndoReq = undo_applied s sid"
    using undo_last [of s pre sid post now uid] by (simp add: active_def)
  then show "applyClientOp now uid s UndoReq =
          (s\<lparr> undone := set_add sid (undone s), redoStack := redoStack s @ [sid] \<rparr>,
           Inr (Some (UndoApplied sid)))"
    by (simp add: undo_applied_def)
  from u a(2) show "set (undone (fst (applyClientOp now uid s UndoReq))) = insert sid (set (undone s))"
    by (simp add: undo_applied_def set_add_def)
next
  have act: "active (s\<lparr> strokes := m \<rparr>) = active s"
    by (simp add: active_def fun_eq_iff)
  show "applyClientOp now' uid' (s\<lparr> strokes := m \<rparr>) UndoReq =
       (fst (applyClientOp now uid s UndoReq)\<lparr> strokes := m \<rparr>,
        snd (applyClientOp now uid s UndoReq))"
    by (simp only: undo_filter act Let_def) (simp add: undo_applied_def)
qed

theorem undo_selects_latest_active_witness:
  "applyClientOp 0 ''u1'' ds_example UndoReq =
     (ds_example\<lparr> undone := [''b'', ''a''], redoStack := [''b'', ''a''] \<rparr>,
      Inr (Some (UndoApplied ''a'')))
   \<and> applyClientOp 0 ''u1'' (ds_example\<lparr> undone := [''b'', ''a''] \<rparr>) UndoReq =
       (ds_example\<lparr> undone := [''b'', ''a''] \<rparr>, Inr None)"
  using undo_selects_latest_active [where s = ds_example and pre = "[]" and sid = "''a''"
      and post = "[''b'']" and now = 0 and uid = "''u1''"]
    undo_selects_latest_active [where s = "ds_example\<lparr> undone := [''b'', ''a''] \<rparr>"
      and now = 0 and uid = "''u1''"]
  by (simp add: ds_example_def set_add_def)

subsection \<open>Failure paths\<close>

lemma undo_loop_ok: "undo_loop s k = (s', Inl e) \<Longrightarrow> False"
  by (induction k) (auto simp: Let_def split: if_splits)

lemma redo_loop_ok: "redo_loop s = (s', Inl e) \<Longrightarrow> False"
proof (induction s arbitrary: s' rule: redo_loop.induct)
  case (1 s)
  from "1.prems" show ?case
    apply (subst (asm) redo_loop.simps)
    apply (simp only: Let_def split: if_splits)
    using "1.IH" apply auto
    done
qed

lemma apply_error_unchanged: "applyClientOp now uid s op = (s', Inl e) \<Longrightarrow> s' = s"
proof (cases op)
  case (CStroke so)
  assume a: "applyClientOp now uid s op = (s', Inl e)"
  show ?thesis
  proof (cases so)
    case (StrokeStart sid tool color w x y)
    with a CStroke show ?thesis by (auto simp: Let_def split: if_splits)
  next
    case (StrokePoints sid pts)
    with a CStroke show ?thesis by (auto simp: Let_def split: if_splits option.splits)
  next
    case (StrokeEnd sid)
    with a CStroke show ?thesis by (auto simp: Let_def split: if_splits option.splits)
  qed
next
  case UndoReq
  assume "applyClientOp now uid s op = (s', Inl e)"
  with UndoReq show ?thesis using undo_loop_ok by auto
next
  case RedoReq
  assume "applyClientOp now uid s op = (s', Inl e)"
  with RedoReq show ?thesis using redo_loop_ok by auto
qed

text \<open>
  Claim C6. When \<open>applyClientOp\<close> fails, the drawing state afterwards is the state before, in
  every field. A \<open>stroke_start\<close> whose stroke id is already a key of \<open>strokes\<close> fails in
  this way, so the record stored under that id is the one that was there.
\<close>

theorem error_leaves_state_unchanged:
  "(applyClientOp now uid s op = (s', Inl e) \<longrightarrow> s' = s)
   \<and> (map_has (strokes s) sid \<longrightarrow>
        applyClientOp now uid s (CStroke (StrokeStart sid tool color w x y))
          = (s, Inl ''strokeId already exists''))"
  using apply_error_unchanged [of now uid s op s' e] by simp

theorem error_leaves_state_unchanged_witness:
  "map_has (strokes ds_in_progress) ''a''
   \<and> applyClientOp 20 ''u2'' ds_in_progress (CStroke (StrokeStart ''a'' Eraser ''#fff'' 2 5 5))
       = (ds_in_progress, Inl ''strokeId already exists'')
   \<and> map_get (strokes ds_in_progress) ''a'' = Some rec_example"
  using error_leaves_state_unchanged [where s = ds_in_progress and sid = "''a''" and now = 20
      and uid = "''u2''" and tool = Eraser and color = "''#fff''" and w = 2 and x = 5 and y = 5
      and op = "CStroke (StrokeStart ''a'' Eraser ''#fff'' 2 5 5)" and s' = ds_in_progress
      and e = "''strokeId already exists''"]
  by (simp add: ds_in_progress_def new_DrawingState_def map_has_def map_get_def)

subsection \<open>Invariants of the undo machinery\<close>

lemma undo_cases:
  obtains (none) "filter (active s) (committedOrder s) = []"
      "applyClientOp now uid s UndoReq = (s, Inr None)"
  | (some) sid where "sid \<in> set (committedOrder s)" "active s sid"
      "applyClientOp now uid s UndoReq = undo_applied s sid"
      "sid = last (filter (active s) (committedOrder s))"
proof (cases "filter (active s) (committedOrder s) = []")
  case True
  then have "applyClientOp now uid s UndoReq = (s, Inr None)"
    unfolding undo_filter Let_def by simp
  with True show ?thesis by (rule none)
next
  case False
  let ?x = "last (filter (active s) (committedOrder s))"
  from False have "?x \<in> set (filter (active s) (committedOrder s))"
    by (rule last_in_set)
  then have m: "?x \<in> set (committedOrder s)" "active s ?x"
    by simp_all
  from False have "applyClientOp now uid s UndoReq = undo_applied s ?x"
    unfolding undo_filter Let_def by simp
  with m show ?thesis using some [of ?x] by blast
qed

lemma undo_inv_undo:
  assumes "undo_inv s" "applyClientOp now uid s UndoReq = (s', r)"
  shows "undo_inv s'"
proof (cases rule: undo_cases [of s now uid])
  case none
  from none(2) assms show ?thesis by (simp del: applyClientOp.simps)
next
  case (some sid)
  from some(3) assms(2)
  have s': "s' = s\<lparr> undone := set_add sid (undone s), redoStack := redoStack s @ [sid] \<rparr>"
    by (simp add: undo_applied_def del: applyClientOp.simps)
  from some(2) assms(1) have "sid \<notin> set (redoStack s)"
    by (auto simp: active_def undo_inv_def)
  with some(2) assms(1) show ?thesis
    unfolding s' by (auto simp: undo_inv_def active_def set_add_def)
qed

lemma undo_inv_redo_loop:
  "undo_inv s \<Longrightarrow> redo_loop s = (s', r) \<Longrightarrow> undo_inv s'"
proof (induction s arbitrary: s' r rule: redo_loop.induct)
  case (1 s)
  show ?case
  proof (cases "redoStack s = []")
    case True
    with "1.prems" show ?thesis by (simp add: redo_loop.simps)
  next
    case False
    let ?sid = "last (redoStack s)"
    let ?s1 = "s\<lparr> redoStack := butlast (redoStack s) \<rparr>"
    have inv1: "undo_inv ?s1"
      using "1.prems"(1) by (auto simp: undo_inv_def distinct_butlast dest: in_set_butlastD)
    have notin: "?sid \<notin> set (butlast (redoStack s))"
      using "1.prems"(1) False
      by (metis append_butlast_last_id distinct_append undo_inv_def disjoint_iff list.set_intros(1))
    show ?thesis
    proof (cases "set_has (committed ?s1) ?sid \<and> set_has (undone ?s1) ?sid")
      case True
      with False "1.prems"(2)
      have "s' = ?s1\<lparr> undone := set_delete ?sid (undone ?s1) \<rparr>"
        by (subst (asm) redo_loop.simps) (simp add: Let_def)
      with inv1 notin show ?thesis
        by (auto simp: undo_inv_def set_delete_def)
    next
      case F2: False
      with False "1.prems"(2) have "redo_loop ?s1 = (s', r)"
        by (subst (asm) redo_loop.simps) (auto simp add: Let_def split: if_splits)
      with F2 False inv1 "1.IH"(1)[of ?sid ?s1 s' r] "1.IH"(2)[of ?sid ?s1 s' r]
      show ?thesis by (auto simp: Let_def)
    qed
  qed
qed

lemma undo_inv_step:
  assumes "undo_inv s" "applyClientOp now uid s op = (s', r)"
  shows "undo_inv s'"
proof (cases op)
  case (CStroke so)
  show ?thesis
  proof (cases so)
    case (StrokeStart sid tool color w x y)
    with assms CStroke show ?thesis
      by (auto simp: undo_inv_def Let_def split: if_splits)
  next
    case (StrokePoints sid pts)
    with assms CStroke show ?thesis
      by (auto simp: undo_inv_def Let_def split: if_splits option.splits)
  next
    case (StrokeEnd sid)
    with assms CStroke show ?thesis
      by (auto simp: undo_inv_def Let_def set_add_def set_delete_def split: if_splits option.splits)
  qed
next
  case UndoReq
  with assms show ?thesis using undo_inv_undo by simp
next
  case RedoReq
  with assms show ?thesis using undo_inv_redo_loop by simp
qed

lemma reachable_undo_inv: "reachable s \<Longrightarrow> undo_inv s"
proof (induction rule: reachable.induct)
  case reachable_init
  show ?case by (simp add: undo_inv_def new_DrawingState_def)
next
  case (reachable_step s now uid op s' b)
  then show ?case using undo_inv_step by blast
qed

lemma reachable_ds_undone: "reachable ds_undone"
proof -
  have 1: "applyClientOp 10 ''u1'' new_DrawingState (CStroke (StrokeStart ''a'' Brush ''#000'' 4 0 0))
             = (ds_in_progress, Inr (Some (SStroke (StrokeStart ''a'' Brush ''#000'' 4 0 0))))"
    by (simp add: ds_in_progress_def rec_example_def new_DrawingState_def map_has_def map_set_def)
  have 2: "applyClientOp 11 ''u1'' ds_in_progress (CStroke (StrokeEnd ''a''))
             = (ds_committed, Inr (Some (SStroke (StrokeEnd ''a''))))"
    by (simp add: ds_in_progress_def ds_committed_def rec_example_def new_DrawingState_def
        map_get_def map_set_def set_add_def set_delete_def)
  have 3: "applyClientOp 12 ''u2'' ds_committed UndoReq = (ds_undone, Inr (Some (UndoApplied ''a'')))"
    by (simp add: ds_undone_def ds_committed_def set_has_def set_add_def Let_def)
  from reachable_init 1 have "reachable ds_in_progress" by (rule reachable_step)
  from this 2 have "reachable ds_committed" by (rule reachable_step)
  from this 3 show ?thesis by (rule reachable_step)
qed

text \<open>
  Claim C2. In every state reachable from the empty drawing state by successful
  \<open>applyClientOp\<close> calls, of any users and any ops, \<open>undone\<close> is a subset of \<open>committed\<close>
  and every id on \<open>redoStack\<close> is in both \<open>committed\<close> and \<open>undone\<close>; a further
  successful call leads to a state where both hold again.
\<close>

theorem reachable_undo_redo_invariants:
  assumes "reachable s"
  shows "set (undone s) \<subseteq> set (committed s)
         \<and> (\<forall>sid \<in> set (redoStack s). sid \<in> set (committed s) \<and> sid \<in> set (undone s))
         \<and> (\<forall>now uid op s' b. applyClientOp now uid s op = (s', Inr b) \<longrightarrow>
              set (undone s') \<subseteq> set (committed s')
              \<and> (\<forall>sid \<in> set (redoStack s'). sid \<in> set (committed s') \<and> sid \<in> set (undone s')))"
proof -
  have inv: "undo_inv s" using assms by (rule reachable_undo_inv)
  have "undo_inv s'" if "applyClientOp now uid s op = (s', Inr b)" for now uid op s' b
    using inv that by (rule undo_inv_step)
  with inv show ?thesis
    unfolding undo_inv_def by blast
qed

theorem reachable_undo_redo_invariants_witness:
  "reachable ds_undone \<and> undone ds_undone = [''a''] \<and> redoStack ds_undone = [''a'']
   \<and> set (undone ds_undone) \<subseteq> set (committed ds_undone)
   \<and> ''a'' \<in> set (committed ds_undone) \<and> ''a'' \<in> set (undone ds_undone)
   \<and> applyClientOp 13 ''u1'' ds_undone RedoReq = (ds_committed, Inr (Some (RedoApplied ''a'')))
   \<and> set (undone ds_committed) \<subseteq> set (committed ds_committed)"
proof -
  have step: "applyClientOp 13 ''u1'' ds_undone RedoReq
                = (ds_committed, Inr (Some (RedoApplied ''a'')))"
    by (simp add: ds_undone_def ds_committed_def redo_loop.simps Let_def set_has_def
        set_delete_def)
  from reachable_undo_redo_invariants [OF reachable_ds_undone] step
  have "set (undone ds_committed) \<subseteq> set (committed ds_committed)"
    by blast
  with reachable_undo_redo_invariants [OF reachable_ds_undone] reachable_ds_undone step
  show ?thesis by (simp add: ds_undone_def ds_committed_def)
qed

subsection \<open>Undo followed by redo\<close>

lemma redo_top:
  assumes "redoStack s = rs @ [x]" "x \<in> set (committed s)" "x \<in> set (undone s)"
  shows "applyClientOp now uid s RedoReq =
           (s\<lparr> redoStack := rs, undone := set_delete x (undone s) \<rparr>,
            Inr (Some (RedoApplied x)))"
  using assms by (simp add: redo_loop.simps [of s] Let_def set_has_def)

lemma active_count_undo:
  assumes "active s x" "x \<in> set (committedOrder s)"
  shows "active_count (fst (undo_applied s x)) = active_count s - 1"
proof -
  let ?s1 = "fst (undo_applied s x)"
  have "active ?s1 = (\<lambda>y. active s y \<and> y \<noteq> x)"
    using assms(1) by (auto simp: active_def undo_applied_def set_add_def fun_eq_iff)
  then have "set (filter (active ?s1) (committedOrder ?s1))
             = set (filter (active s) (committedOrder s)) - {x}"
    by (auto simp: undo_applied_def)
  moreover have "x \<in> set (filter (active s) (committedOrder s))"
    using assms by simp
  ultimately have "card (set (filter (active ?s1) (committedOrder ?s1)))
                   = card (set (filter (active s) (committedOrder s))) - 1"
    by (simp add: card_Diff_singleton)
  then show ?thesis
    by (simp add: active_count_def length_remdups_card_conv)
qed

lemma apply_all_Cons:
  "apply_all ((now, uid) # calls) op s = apply_all calls op (fst (applyClientOp now uid s op))"
  by (simp add: apply_all_def)

lemma apply_all_snoc:
  "apply_all (calls @ [(now, uid)]) op s = fst (applyClientOp now uid (apply_all calls op s) op)"
  by (simp add: apply_all_def)

lemma undo_redo_restore:
  "length us = n \<Longrightarrow> length rs = n \<Longrightarrow> n \<le> active_count s \<Longrightarrow>
   apply_all rs RedoReq (apply_all us UndoReq s) = s"
proof (induction n arbitrary: s us rs)
  case 0
  then show ?case by (simp add: apply_all_def)
next
  case (Suc n)
  from Suc.prems(1) obtain tu uu us' where us: "us = (tu, uu) # us'" and lus: "length us' = n"
    by (cases us) auto
  from Suc.prems(2) obtain rs' tr ur where rs: "rs = rs' @ [(tr, ur)]" and lrs: "length rs' = n"
    by (cases rs rule: rev_cases) auto
  show ?case
  proof (cases rule: undo_cases [of s tu uu])
    case none
    with Suc.prems(3) show ?thesis by (simp add: active_count_def)
  next
    case (some x)
    let ?s1 = "fst (undo_applied s x)"
    have cnt: "n \<le> active_count ?s1"
      using active_count_undo [OF some(2) some(1)] Suc.prems(3) by simp
    have mid: "apply_all rs' RedoReq (apply_all us' UndoReq ?s1) = ?s1"
      using Suc.IH [OF lus lrs cnt] .
    have x: "x \<in> set (committed s)" "x \<notin> set (undone s)"
      using some(2) by (simp_all add: active_def)
    have s1: "?s1 = s\<lparr> undone := undone s @ [x], redoStack := redoStack s @ [x] \<rparr>"
      using x by (simp add: undo_applied_def set_add_def)
    have "applyClientOp tr ur ?s1 RedoReq =
            (?s1\<lparr> redoStack := redoStack s, undone := set_delete x (undone ?s1) \<rparr>,
             Inr (Some (RedoApplied x)))"
      by (rule redo_top) (simp_all add: s1 x)
    then have restored: "fst (applyClientOp tr ur ?s1 RedoReq) = s"
      using x by (simp add: s1 set_delete_def del: applyClientOp.simps)
    have "apply_all us UndoReq s = apply_all us' UndoReq ?s1"
      unfolding us apply_all_Cons some(3) ..
    then show ?thesis
      unfolding rs apply_all_snoc by (simp only: mid restored)
  qed
qed

lemma redo_loop_frame:
  "redo_loop s = (s', r) \<Longrightarrow>
   strokes s' = strokes s \<and> committedOrder s' = committedOrder s \<and> committed s' = committed s"
proof (induction s arbitrary: s' r rule: redo_loop.induct)
  case (1 s)
  show ?case
  proof (cases "redoStack s = []")
    case True
    with "1.prems" show ?thesis by (simp add: redo_loop.simps)
  next
    case False
    let ?sid = "last (redoStack s)"
    let ?s1 = "s\<lparr> redoStack := butlast (redoStack s) \<rparr>"
    show ?thesis
    proof (cases "set_has (committed ?s1) ?sid \<and> set_has (undone ?s1) ?sid")
      case True
      with False "1.prems"
      have "s' = ?s1\<lparr> undone := set_delete ?sid (undone ?s1) \<rparr>"
        by (subst (asm) redo_loop.simps) (simp add: Let_def)
      then show ?thesis by simp
    next
      case F2: False
      with False "1.prems" have "redo_loop ?s1 = (s', r)"
        by (subst (asm) redo_loop.simps) (auto simp add: Let_def split: if_splits)
      with F2 False "1.IH"(1)[of ?sid ?s1 s' r] "1.IH"(2)[of ?sid ?s1 s' r]
      show ?thesis by (auto simp: Let_def)
    qed
  qed
qed

lemma undo_frame:
  assumes "applyClientOp now uid s UndoReq = (s', r)"
  shows "strokes s' = strokes s \<and> committedOrder s' = committedOrder s
         \<and> committed s' = committed s"
proof (cases rule: undo_cases [of s now uid])
  case none
  from none(2) assms have "s' = s" by (simp del: applyClientOp.simps)
  then show ?thesis by simp
next
  case (some sid)
  from some(3) assms have "undo_applied s sid = (s', r)" by (simp del: applyClientOp.simps)
  then show ?thesis by (auto simp add: undo_applied_def)
qed

lemma log_step:
  assumes "set (committedOrder s) = set (committed s)" "applyClientOp now uid s op = (s', r)"
  shows "set (committedOrder s') = set (committed s')"
proof (cases op)
  case (CStroke so)
  with assms show ?thesis
    by (cases so) (auto simp: Let_def set_add_def split: if_splits option.splits)
next
  case UndoReq
  with assms show ?thesis using undo_frame by metis
next
  case RedoReq
  with assms show ?thesis using redo_loop_frame by (metis applyClientOp.simps(5))
qed

lemma reachable_log: "reachable s \<Longrightarrow> set (committedOrder s) = set (committed s)"
proof (induction rule: reachable.induct)
  case reachable_init
  show ?case by (simp add: new_DrawingState_def)
next
  case (reachable_step s now uid op s' b)
  then show ?case using log_step by blast
qed

lemma reachable_active_count:
  assumes "reachable s"
  shows "active_count s = card (set (committed s) - set (undone s))"
proof -
  have "set (filter (active s) (committedOrder s)) = set (committed s) - set (undone s)"
    using reachable_log [OF assms] by (auto simp: active_def)
  then show ?thesis
    by (simp add: active_count_def length_remdups_card_conv)
qed

lemma active_count_card:
  assumes "set (committed s) - set (undone s) \<subseteq> set (committedOrder s)"
  shows "active_count s = card (set (committed s) - set (undone s))"
proof -
  have "set (filter (active s) (committedOrder s)) = set (committed s) - set (undone s)"
    using assms by (auto simp: active_def)
  then show ?thesis
    by (simp add: active_count_def length_remdups_card_conv)
qed

lemma reachable_active_listed:
  "reachable s \<Longrightarrow> set (committed s) - set (undone s) \<subseteq> set (committedOrder s)"
  using reachable_log [of s] by auto

lemma redo_loop_strokes:
  "redo_loop (s\<lparr> strokes := m \<rparr>) = (fst (redo_loop s)\<lparr> strokes := m \<rparr>, snd (redo_loop s))"
proof (induction s rule: redo_loop.induct)
  case (1 s)
  show ?case
  proof (cases "redoStack s = []")
    case True
    then show ?thesis
      by (simp add: redo_loop.simps [of s] redo_loop.simps [of "s\<lparr> strokes := m \<rparr>"])
  next
    case False
    let ?sid = "last (redoStack s)"
    let ?s1 = "s\<lparr> redoStack := butlast (redoStack s) \<rparr>"
    have upd: "s\<lparr> strokes := m, redoStack := butlast (redoStack s) \<rparr> = ?s1\<lparr> strokes := m \<rparr>"
      by simp
    show ?thesis
    proof (cases "set_has (committed ?s1) ?sid \<and> set_has (undone ?s1) ?sid")
      case True
      with False show ?thesis
        by (simp add: redo_loop.simps [of s] redo_loop.simps [of "s\<lparr> strokes := m \<rparr>"] Let_def)
    next
      case F2: False
      with False have a: "redo_loop s = redo_loop ?s1"
        by (auto simp add: redo_loop.simps [of s] Let_def)
      from F2 False have b: "redo_loop (s\<lparr> strokes := m \<rparr>) = redo_loop (?s1\<lparr> strokes := m \<rparr>)"
        by (auto simp add: redo_loop.simps [of "s\<lparr> strokes := m \<rparr>"] Let_def upd)
      from F2 False "1.IH"(1)[of ?sid ?s1] "1.IH"(2)[of ?sid ?s1]
      have "redo_loop (?s1\<lparr> strokes := m \<rparr>)
              = (fst (redo_loop ?s1)\<lparr> strokes := m \<rparr>, snd (redo_loop ?s1))"
        by (auto simp: Let_def)
      with a b show ?thesis by simp
    qed
  qed
qed

lemma undo_strokes:
  "applyClientOp now uid (s\<lparr> strokes := m \<rparr>) UndoReq =
     (fst (applyClientOp now' uid' s UndoReq)\<lparr> strokes := m \<rparr>,
      snd (applyClientOp now' uid' s UndoReq))"
proof -
  have act: "active (s\<lparr> strokes := m \<rparr>) = active s"
    by (simp add: active_def fun_eq_iff)
  show ?thesis
    by (simp only: undo_filter act Let_def) (simp add: undo_applied_def)
qed

lemma history_op_strokes:
  assumes "is_history_op op"
  shows "fst (applyClientOp now uid (s\<lparr> strokes := m \<rparr>) op)
           = fst (applyClientOp now' uid' s op)\<lparr> strokes := m \<rparr>"
proof -
  from assms consider "op = UndoReq" | "op = RedoReq"
    by (auto simp: is_history_op_def)
  then show ?thesis
  proof cases
    case 1
    then show ?thesis
      using undo_strokes [where now = now and uid = uid and s = s and m = m and now' = now'
          and uid' = uid']
      by (simp del: applyClientOp.simps)
  next
    case 2
    then show ?thesis by (simp add: redo_loop_strokes)
  qed
qed

lemma stroke_op_frame:
  assumes "\<not> is_history_op op" "\<not> is_commit op"
  shows "\<exists>m. fst (applyClientOp now uid s op) = s\<lparr> strokes := m \<rparr>"
proof (cases op)
  case (CStroke so)
  show ?thesis
  proof (cases so)
    case (StrokeStart sid tool color w x y)
    show ?thesis
    proof (cases "map_has (strokes s) sid")
      case True
      with CStroke StrokeStart have "fst (applyClientOp now uid s op) = s\<lparr> strokes := strokes s \<rparr>"
        by simp
      then show ?thesis by blast
    next
      case False
      let ?rec = "\<lparr> rec_id = sid, rec_userId = uid, rec_tool = tool, rec_color = color,
                     rec_w = w, rec_points = [(x, y)], rec_committed = False,
                     createdAt = now, updatedAt = now \<rparr>"
      from False CStroke StrokeStart
      have "fst (applyClientOp now uid s op) = s\<lparr> strokes := map_set sid ?rec (strokes s) \<rparr>"
        by (simp add: Let_def)
      then show ?thesis by blast
    qed
  next
    case (StrokePoints sid pts)
    show ?thesis
    proof (cases "map_get (strokes s) sid")
      case None
      with CStroke StrokePoints have "fst (applyClientOp now uid s op) = s\<lparr> strokes := strokes s \<rparr>"
        by simp
      then show ?thesis by blast
    next
      case (Some rec)
      let ?rec = "rec\<lparr> rec_points := rec_points rec @ pts, updatedAt := now \<rparr>"
      show ?thesis
      proof (cases "\<not> rec_committed rec \<and> rec_userId rec = uid")
        case True
        with Some CStroke StrokePoints
        have "fst (applyClientOp now uid s op) = s\<lparr> strokes := map_set sid ?rec (strokes s) \<rparr>"
          by (simp add: Let_def)
        then show ?thesis by blast
      next
        case False
        with Some CStroke StrokePoints
        have "fst (applyClientOp now uid s op) = s\<lparr> strokes := strokes s \<rparr>"
          by auto
        then show ?thesis by blast
      qed
    qed
  next
    case (StrokeEnd sid)
    with CStroke assms(2) show ?thesis by simp
  qed
next
  case UndoReq
  with assms(1) show ?thesis by (simp add: is_history_op_def)
next
  case RedoReq
  with assms(1) show ?thesis by (simp add: is_history_op_def)
qed

lemma history_fold_strokes:
  "list_all is_history_op h \<Longrightarrow>
   fold (\<lambda>op s. fst (applyClientOp 0 [] s op)) h (s\<lparr> strokes := m \<rparr>)
     = fold (\<lambda>op s. fst (applyClientOp 0 [] s op)) h s\<lparr> strokes := m \<rparr>"
proof (induction h arbitrary: s)
  case Nil
  show ?case by simp
next
  case (Cons op h)
  then have op: "is_history_op op" and h: "list_all is_history_op h" by simp_all
  show ?case
    using history_op_strokes [OF op, where now = 0 and uid = "[]" and s = s and m = m
        and now' = 0 and uid' = "[]"] Cons.IH [OF h]
    by (simp del: applyClientOp.simps)
qed

lemma run_calls_history:
  "commit_free calls \<Longrightarrow>
   \<exists>m. run_calls calls s
         = fold (\<lambda>op s. fst (applyClientOp 0 [] s op)) (history_ops calls) s\<lparr> strokes := m \<rparr>"
proof (induction calls arbitrary: s)
  case Nil
  have "run_calls [] s
          = fold (\<lambda>op s. fst (applyClientOp 0 [] s op)) (history_ops []) s\<lparr> strokes := strokes s \<rparr>"
    by (simp add: run_calls_def history_ops_def)
  then show ?case by blast
next
  case (Cons c calls)
  obtain now uid op where c: "c = (now, uid, op)" by (cases c) auto
  from Cons.prems c have nc: "\<not> is_commit op" and rest: "commit_free calls"
    by (simp_all add: commit_free_def)
  let ?s1 = "fst (applyClientOp now uid s op)"
  let ?step = "\<lambda>op s. fst (applyClientOp 0 [] s op)"
  have run: "run_calls (c # calls) s = run_calls calls ?s1"
    by (simp add: run_calls_def c)
  have hl: "list_all is_history_op (history_ops calls)"
    by (simp add: history_ops_def list_all_iff)
  from Cons.IH [OF rest, of ?s1] obtain m where
    ih: "run_calls calls ?s1 = fold ?step (history_ops calls) ?s1\<lparr> strokes := m \<rparr>"
    by blast
  show ?case
  proof (cases "is_history_op op")
    case True
    have s1: "?s1 = fst (applyClientOp 0 [] s op)\<lparr> strokes := strokes s \<rparr>"
      using history_op_strokes [OF True, where now = now and uid = uid and s = s
          and m = "strokes s" and now' = 0 and uid' = "[]"]
      by (simp del: applyClientOp.simps)
    have "fold ?step (history_ops calls) ?s1
            = fold ?step (history_ops calls) (fst (applyClientOp 0 [] s op))
                \<lparr> strokes := strokes s \<rparr>"
      unfolding s1 by (rule history_fold_strokes [OF hl])
    moreover have "history_ops (c # calls) = op # history_ops calls"
      using True by (simp add: history_ops_def c)
    ultimately have "run_calls (c # calls) s
        = fold ?step (history_ops (c # calls)) s\<lparr> strokes := m \<rparr>"
      using run ih by (simp del: applyClientOp.simps)
    then show ?thesis by blast
  next
    case False
    from stroke_op_frame [OF False nc, of now uid s] obtain m1 where
      s1: "?s1 = s\<lparr> strokes := m1 \<rparr>" by blast
    have "history_ops (c # calls) = history_ops calls"
      using False by (simp add: history_ops_def c)
    moreover have "fold ?step (history_ops calls) ?s1
                   = fold ?step (history_ops calls) s\<lparr> strokes := m1 \<rparr>"
      unfolding s1 by (rule history_fold_strokes [OF hl])
    ultimately have "run_calls (c # calls) s
        = fold ?step (history_ops (c # calls)) s\<lparr> strokes := m \<rparr>"
      using run ih by (simp del: applyClientOp.simps)
    then show ?thesis by blast
  qed
qed

lemma fold_undo_redo:
  "fold (\<lambda>op s. fst (applyClientOp 0 [] s op)) (replicate n UndoReq @ replicate n RedoReq) s
     = apply_all (replicate n (0, [])) RedoReq (apply_all (replicate n (0, [])) UndoReq s)"
  by (simp add: apply_all_def fold_replicate del: applyClientOp.simps)

lemma interleaved_restore:
  assumes "n \<le> active_count s" "commit_free calls"
    "history_ops calls = replicate n UndoReq @ replicate n RedoReq"
  shows "\<exists>m. run_calls calls s = s\<lparr> strokes := m \<rparr>"
proof -
  have "apply_all (replicate n (0, [])) RedoReq (apply_all (replicate n (0, [])) UndoReq s) = s"
    by (rule undo_redo_restore [OF _ _ assms(1)]) simp_all
  then have "fold (\<lambda>op s. fst (applyClientOp 0 [] s op)) (history_ops calls) s = s"
    unfolding assms(3) fold_undo_redo .
  with run_calls_history [OF assms(2), of s] show ?thesis
    by (simp del: applyClientOp.simps)
qed

text \<open>
  Claim C3, as amended. From a drawing state in which every committed stroke that is not
  undone is listed in \<open>committedOrder\<close>, as in every reachable state (lemma
  \<open>reachable_active_listed\<close>), \<open>n\<close> undo ops followed by \<open>n\<close> redo ops, with \<open>n\<close> at most
  the number of committed strokes that are not undone, give back the set of active strokes
  (committed and not undone) of the start. With nothing in between they give back the
  whole state; \<open>stroke_start\<close> and \<open>stroke_points\<close> ops in between, whether they succeed or
  fail, change the stroke registry alone. One undo followed by one redo is the case
  \<open>n = 1\<close>. The calls may come from any users.
\<close>

theorem undo_redo_round_trip:
  assumes "set (committed s) - set (undone s) \<subseteq> set (committedOrder s)"
    and "n \<le> card (set (committed s) - set (undone s))"
  shows "(length us = n \<and> length rs = n \<longrightarrow>
            apply_all rs RedoReq (apply_all us UndoReq s) = s
            \<and> set (committed (apply_all rs RedoReq (apply_all us UndoReq s)))
                - set (undone (apply_all rs RedoReq (apply_all us UndoReq s)))
              = set (committed s) - set (undone s))
         \<and> (commit_free calls
              \<and> history_ops calls = replicate n UndoReq @ replicate n RedoReq \<longrightarrow>
            run_calls calls s = s\<lparr> strokes := strokes (run_calls calls s) \<rparr>
            \<and> set (committed (run_calls calls s)) - set (undone (run_calls calls s))
              = set (committed s) - set (undone s))
         \<and> (1 \<le> card (set (committed s) - set (undone s)) \<longrightarrow>
              fst (applyClientOp t2 u2 (fst (applyClientOp t1 u1 s UndoReq)) RedoReq) = s)"
proof (intro conjI impI)
  have cnt: "active_count s = card (set (committed s) - set (undone s))"
    using assms(1) by (rule active_count_card)
  {
    assume l: "length us = n \<and> length rs = n"
    then show all: "apply_all rs RedoReq (apply_all us UndoReq s) = s"
      using undo_redo_restore [of us n rs s] assms(2) cnt by simp
    show "set (committed (apply_all rs RedoReq (apply_all us UndoReq s)))
                - set (undone (apply_all rs RedoReq (apply_all us UndoReq s)))
              = set (committed s) - set (undone s)"
      unfolding all ..
  next
    assume c: "commit_free calls
              \<and> history_ops calls = replicate n UndoReq @ replicate n RedoReq"
    from interleaved_restore [of n s calls] c assms(2) cnt
    obtain m where m: "run_calls calls s = s\<lparr> strokes := m \<rparr>" by auto
    then show "run_calls calls s = s\<lparr> strokes := strokes (run_calls calls s) \<rparr>"
      by simp
    from m show "set (committed (run_calls calls s)) - set (undone (run_calls calls s))
              = set (committed s) - set (undone s)"
      by simp
  next
    assume "1 \<le> card (set (committed s) - set (undone s))"
    then show "fst (applyClientOp t2 u2 (fst (applyClientOp t1 u1 s UndoReq)) RedoReq) = s"
      using undo_redo_restore [of "[(t1, u1)]" 1 "[(t2, u2)]" s] cnt
      by (simp add: apply_all_def del: applyClientOp.simps)
  }
qed

theorem undo_redo_round_trip_witness:
  "set (committed ds_example) - set (undone ds_example) \<subseteq> set (committedOrder ds_example)
   \<and> (1::nat) \<le> card (set (committed ds_example) - set (undone ds_example))
   \<and> apply_all [(20, ''u1'')] UndoReq ds_example
       = ds_example\<lparr> undone := [''b'', ''a''], redoStack := [''b'', ''a''] \<rparr>
   \<and> apply_all [(21, ''u2'')] RedoReq (apply_all [(20, ''u1'')] UndoReq ds_example) = ds_example
   \<and> commit_free calls_example
   \<and> history_ops calls_example = replicate 1 UndoReq @ replicate 1 RedoReq
   \<and> strokes (run_calls calls_example ds_example) \<noteq> strokes ds_example
   \<and> set (committed (run_calls calls_example ds_example))
       - set (undone (run_calls calls_example ds_example)) = {''a''}
   \<and> fst (applyClientOp 21 ''u2'' (fst (applyClientOp 20 ''u1'' ds_example UndoReq)) RedoReq)
       = ds_example"
proof -
  have act: "set (committed ds_example) - set (undone ds_example) = {''a''}"
    by (auto simp: ds_example_def)
  have listed: "set (committed ds_example) - set (undone ds_example)
      \<subseteq> set (committedOrder ds_example)"
    unfolding act by (simp add: ds_example_def)
  have n: "(1::nat) \<le> card (set (committed ds_example) - set (undone ds_example))"
    unfolding act by simp
  have u: "apply_all [(20, ''u1'')] UndoReq ds_example
       = ds_example\<lparr> undone := [''b'', ''a''], redoStack := [''b'', ''a''] \<rparr>"
    by (simp add: ds_example_def apply_all_def set_has_def set_add_def Let_def)
  have cf: "commit_free calls_example"
    by (simp add: commit_free_def calls_example_def)
  have h: "history_ops calls_example = replicate 1 UndoReq @ replicate 1 RedoReq"
    by (simp add: history_ops_def calls_example_def is_history_op_def)
  have st: "strokes (run_calls calls_example ds_example) \<noteq> strokes ds_example"
    by (simp add: run_calls_def calls_example_def ds_example_def set_has_def set_add_def
        set_delete_def Let_def redo_loop.simps map_has_def map_get_def map_set_def)
  note inst = undo_redo_round_trip [OF listed n, where us = "[(20, ''u1'')]"
      and rs = "[(21, ''u2'')]" and calls = calls_example and ?t1.0 = 20 and ?u1.0 = "''u1''"
      and ?t2.0 = 21 and ?u2.0 = "''u2''"]
  from inst have r: "apply_all [(21, ''u2'')] RedoReq (apply_all [(20, ''u1'')] UndoReq ds_example)
      = ds_example"
    by simp
  from inst cf h have i: "set (committed (run_calls calls_example ds_example))
       - set (undone (run_calls calls_example ds_example))
      = set (committed ds_example) - set (undone ds_example)"
    by blast
  from inst n have o: "fst (applyClientOp 21 ''u2''
      (fst (applyClientOp 20 ''u1'' ds_example UndoReq)) RedoReq) = ds_example"
    by blast
  from listed n u r cf h st i o show ?thesis
    unfolding act by (simp del: applyClientOp.simps)
qed

text \<open>
  Claim C3 as stated covers every drawing state. The state restored from a snapshot that
  holds the strokes \<open>b\<close> and \<open>c\<close>, with \<open>c\<close> undone and on the redo stack, and an empty
  \<open>committedOrder\<close> has one committed stroke that is not undone. An undo finds nothing in
  \<open>committedOrder\<close>, and the redo that follows it makes \<open>c\<close> active.
\<close>

theorem undo_redo_after_unlisted_restore:
  "set (committed ds_unlisted) - set (undone ds_unlisted) = {''b''}
   \<and> (1::nat) \<le> card (set (committed ds_unlisted) - set (undone ds_unlisted))
   \<and> set (committed (fst (applyClientOp 21 ''u2''
             (fst (applyClientOp 20 ''u1'' ds_unlisted UndoReq)) RedoReq)))
       - set (undone (fst (applyClientOp 21 ''u2''
             (fst (applyClientOp 20 ''u1'' ds_unlisted UndoReq)) RedoReq)))
       = {''b'', ''c''}
   \<and> set (committed (fst (applyClientOp 21 ''u2''
             (fst (applyClientOp 20 ''u1'' ds_unlisted UndoReq)) RedoReq)))
       - set (undone (fst (applyClientOp 21 ''u2''
             (fst (applyClientOp 20 ''u1'' ds_unlisted UndoReq)) RedoReq)))
       \<noteq> set (committed ds_unlisted) - set (undone ds_unlisted)"
proof -
  have s: "ds_unlisted =
      \<lparr> strokes = [(''b'', rec_example\<lparr> rec_id := ''b'', rec_committed := True \<rparr>),
                   (''c'', rec_example\<lparr> rec_id := ''c'', rec_committed := True \<rparr>)],
        committed = [''b'', ''c''], undone = [''c''], committedOrder = [],
        redoStack = [''c''] \<rparr>"
    by (simp add: ds_unlisted_def fromPersisted_def restore_step_def new_DrawingState_def
        map_set_def set_add_def new_Set_def rec_example_def)
  have before: "set (committed ds_unlisted) - set (undone ds_unlisted) = {''b''}"
    unfolding s by auto
  have after: "fst (applyClientOp 21 ''u2'' (fst (applyClientOp 20 ''u1'' ds_unlisted UndoReq))
        RedoReq) = ds_unlisted\<lparr> undone := [], redoStack := [] \<rparr>"
    unfolding s by (simp add: redo_loop.simps Let_def set_has_def set_delete_def)
  have active_after: "set (committed (ds_unlisted\<lparr> undone := [], redoStack := [] \<rparr>))
      - set (undone (ds_unlisted\<lparr> undone := [], redoStack := [] \<rparr>)) = {''b'', ''c''}"
    unfolding s by auto
  have "{''b'', ''c''} \<noteq> {''b''}" by auto
  with before after active_after show ?thesis
    by (simp del: applyClientOp.simps)
qed

subsection \<open>Persisting and restoring\<close>

lemma set_update_subset:
  "p \<in> set (AList.update k v m) \<Longrightarrow> p = (k, v) \<or> p \<in> set m"
  by (induction m) (auto split: if_splits)

lemma set_update_distinct:
  "distinct (map fst m) \<Longrightarrow>
   set (AList.update k v m) = insert (k, v) {p \<in> set m. fst p \<noteq> k}"
  by (induction m) (auto simp: rev_image_eqI)

lemma export_fold_set:
  "set (fold (export_step m) xs acc)
   = set acc \<union> {r. \<exists>sid \<in> set xs. map_of m sid = Some r \<and> rec_committed r}"
  by (induction xs arbitrary: acc)
     (auto simp: export_step_def map_get_def split: option.splits if_splits)

lemma export_set:
  assumes "ds_wf s"
  shows "set (p_strokes (exportPersisted n s)) = set (filter rec_committed (map snd (strokes s)))"
proof -
  have "{r. \<exists>sid \<in> set (committedOrder s). map_of (strokes s) sid = Some r \<and> rec_committed r}
        = {r \<in> snd ` set (strokes s). rec_committed r}" (is "?L = ?R")
  proof
    show "?L \<subseteq> ?R"
      by (auto dest!: map_of_SomeD simp: rev_image_eqI)
    show "?R \<subseteq> ?L"
    proof
      fix r assume "r \<in> ?R"
      then obtain k where kr: "(k, r) \<in> set (strokes s)" and c: "rec_committed r"
        by auto
      with assms have "k \<in> set (committedOrder s)" "map_of (strokes s) k = Some r"
        by (auto simp: ds_wf_def)
      with c show "r \<in> ?L" by blast
    qed
  qed
  then show ?thesis
    by (auto simp: exportPersisted_def export_fold_set)
qed

lemma export_keyed:
  assumes "ds_wf s" "r \<in> set (p_strokes (exportPersisted n s))"
  shows "map_of (strokes s) (rec_id r) = Some r \<and> rec_committed r"
proof -
  from assms(2) obtain sid where "map_of (strokes s) sid = Some r" and c: "rec_committed r"
    by (auto simp: exportPersisted_def export_fold_set)
  moreover from this have "(sid, r) \<in> set (strokes s)" by (auto dest: map_of_SomeD)
  with assms(1) have "rec_id r = sid" by (auto simp: ds_wf_def)
  ultimately show ?thesis by simp
qed

lemma restore_fold_strokes:
  "strokes (fold restore_step rs ds) = fold (\<lambda>r. AList.update (rec_id r) r) rs (strokes ds)"
  by (induction rs arbitrary: ds) (simp_all add: restore_step_def map_set_def)

lemma restore_fold_set:
  "(\<forall>r \<in> set rs. g (rec_id r) = Some r) \<Longrightarrow> (\<forall>(k, v) \<in> set acc. g k = Some v) \<Longrightarrow>
   distinct (map fst acc) \<Longrightarrow>
   set (fold (\<lambda>r. AList.update (rec_id r) r) rs acc) = set acc \<union> (\<lambda>r. (rec_id r, r)) ` set rs"
proof (induction rs arbitrary: acc)
  case Nil
  then show ?case by simp
next
  case (Cons r rs)
  let ?acc = "AList.update (rec_id r) r acc"
  have same: "set ?acc = insert (rec_id r, r) (set acc)"
    using Cons.prems by (auto simp: set_update_distinct)
  have a: "\<forall>(k, v) \<in> set ?acc. g k = Some v"
    using Cons.prems same by auto
  have d: "distinct (map fst ?acc)"
    using Cons.prems(3) by (rule distinct_update)
  have r: "\<forall>r \<in> set rs. g (rec_id r) = Some r"
    using Cons.prems(1) by simp
  have "set (fold (\<lambda>r. AList.update (rec_id r) r) rs ?acc)
          = set ?acc \<union> (\<lambda>r. (rec_id r, r)) ` set rs"
    using r a d by (rule Cons.IH)
  with same show ?case by simp
qed

lemma set_new_Set: "set (new_Set xs) = set xs"
proof -
  have "set (fold set_add xs acc) = set acc \<union> set xs" for acc
    by (induction xs arbitrary: acc) (auto simp: set_add_def)
  then show ?thesis by (simp add: new_Set_def)
qed

lemma ds_wf_step:
  assumes "ds_wf s" "applyClientOp now uid s op = (s', r)"
  shows "ds_wf s'"
proof (cases op)
  case (CStroke so)
  show ?thesis
  proof (cases so)
    case (StrokeStart sid tool color w x y)
    with assms CStroke show ?thesis
      by (auto simp: ds_wf_def Let_def map_has_def map_set_def distinct_update
          dest!: set_update_subset split: if_splits)
  next
    case (StrokePoints sid pts)
    show ?thesis
    proof (cases "map_of (strokes s) sid")
      case None
      with assms CStroke StrokePoints show ?thesis by (simp add: map_get_def)
    next
      case (Some rec)
      then have "(sid, rec) \<in> set (strokes s)" by (rule map_of_SomeD)
      with assms(1) have "rec_id rec = sid" by (auto simp: ds_wf_def)
      with assms CStroke StrokePoints Some show ?thesis
        by (auto simp: ds_wf_def Let_def map_get_def map_set_def distinct_update
            dest!: set_update_subset split: if_splits)
    qed
  next
    case (StrokeEnd sid)
    show ?thesis
    proof (cases "map_of (strokes s) sid")
      case None
      with assms CStroke StrokeEnd show ?thesis by (simp add: map_get_def)
    next
      case (Some rec)
      then have "(sid, rec) \<in> set (strokes s)" by (rule map_of_SomeD)
      with assms(1) have "rec_id rec = sid" by (auto simp: ds_wf_def)
      with assms CStroke StrokeEnd Some show ?thesis
        by (auto simp: ds_wf_def Let_def map_get_def map_set_def distinct_update
            dest!: set_update_subset split: if_splits)
    qed
  qed
next
  case UndoReq
  with assms(2) have "strokes s' = strokes s \<and> committedOrder s' = committedOrder s"
    using undo_frame by blast
  with assms(1) show ?thesis by (simp add: ds_wf_def)
next
  case RedoReq
  with assms(2) have "strokes s' = strokes s \<and> committedOrder s' = committedOrder s"
    using redo_loop_frame by simp
  with assms(1) show ?thesis by (simp add: ds_wf_def)
qed

lemma reachable_ds_wf: "reachable s \<Longrightarrow> ds_wf s"
proof (induction rule: reachable.induct)
  case reachable_init
  show ?case by (simp add: ds_wf_def new_DrawingState_def)
next
  case (reachable_step s now uid op s' b)
  then show ?case using ds_wf_step by blast
qed

lemma restore_fold_committedOrder:
  "committedOrder (fold restore_step rs ds) = committedOrder ds"
  by (induction rs arbitrary: ds) (simp_all add: restore_step_def)

lemma restore_ds_wf:
  assumes "ds_wf s"
  shows "ds_wf (fromPersisted (exportPersisted n s))"
proof -
  let ?E = "p_strokes (exportPersisted n s)"
  let ?s' = "fromPersisted (exportPersisted n s)"
  have st: "strokes ?s' = fold (\<lambda>r. AList.update (rec_id r) r) ?E []"
    by (simp add: fromPersisted_def restore_fold_strokes new_DrawingState_def)
  have co: "committedOrder ?s' = committedOrder s"
    by (simp add: fromPersisted_def exportPersisted_def)
  have "distinct (map fst (fold (\<lambda>r. AList.update (rec_id r) r) rs acc))"
    if "distinct (map fst acc)" for rs :: "StrokeRecord list" and acc
    using that by (induction rs arbitrary: acc) (simp_all add: distinct_update)
  then have d: "distinct (map fst (strokes ?s'))"
    unfolding st by simp
  have "set (strokes ?s') = set [] \<union> (\<lambda>r. (rec_id r, r)) ` set ?E"
    unfolding st
    by (rule restore_fold_set [where g = "map_of (strokes s)"])
       (simp_all add: export_keyed [OF assms])
  moreover have "rec_id r \<in> set (committedOrder s)" if "r \<in> set ?E" for r
  proof -
    from export_keyed [OF assms that] have "(rec_id r, r) \<in> set (strokes s)" "rec_committed r"
      by (auto dest: map_of_SomeD)
    with assms show ?thesis by (auto simp: ds_wf_def)
  qed
  ultimately show ?thesis
    using d co by (auto simp: ds_wf_def)
qed

text \<open>
  Claim C4, as amended. For a drawing state whose stroke registry is well formed, as it is
  in every reachable state (lemma \<open>reachable_ds_wf\<close>) and in the restoration of the export
  of a well-formed state (lemma \<open>restore_ds_wf\<close>), exporting with \<open>exportPersisted\<close> and
  restoring with \<open>fromPersisted\<close> gives a state whose snapshot has the same set of
  committed stroke records, the same set of undone ids, and no in-progress stroke.
\<close>

theorem persist_restore_snapshot:
  assumes "ds_wf s"
  shows "set (snap_strokes (getSnapshot (fromPersisted (exportPersisted n s))))
           = set (snap_strokes (getSnapshot s))
         \<and> set (snap_undone (getSnapshot (fromPersisted (exportPersisted n s))))
           = set (snap_undone (getSnapshot s))
         \<and> snap_inProgress (getSnapshot (fromPersisted (exportPersisted n s))) = []"
proof -
  let ?E = "p_strokes (exportPersisted n s)"
  let ?s' = "fromPersisted (exportPersisted n s)"
  have st: "strokes ?s' = fold (\<lambda>r. AList.update (rec_id r) r) ?E []"
    by (simp add: fromPersisted_def restore_fold_strokes new_DrawingState_def)
  have "set (strokes ?s') = set [] \<union> (\<lambda>r. (rec_id r, r)) ` set ?E"
    unfolding st
    by (rule restore_fold_set [where g = "map_of (strokes s)"])
       (simp_all add: export_keyed [OF assms])
  then have vals: "set (map snd (strokes ?s')) = set ?E"
    by (auto simp: image_image rev_image_eqI)
  have allc: "\<forall>r \<in> set ?E. rec_committed r"
    using export_keyed [OF assms] by blast
  have "set (snap_strokes (getSnapshot ?s')) = set ?E"
    using vals allc by (auto simp: getSnapshot_def map_values_def)
  moreover have "snap_inProgress (getSnapshot ?s') = []"
    using vals allc by (auto simp: getSnapshot_def map_values_def filter_empty_conv)
  moreover have "set (snap_undone (getSnapshot ?s')) = set (snap_undone (getSnapshot s))"
    by (simp add: getSnapshot_def fromPersisted_def exportPersisted_def set_new_Set)
  moreover have "set ?E = set (snap_strokes (getSnapshot s))"
    using export_set [OF assms] by (simp add: getSnapshot_def map_values_def)
  ultimately show ?thesis by simp
qed

theorem persist_restore_snapshot_witness:
  "ds_wf ds_mixed
   \<and> snap_inProgress (getSnapshot ds_mixed) = [rec_example\<lparr> rec_id := ''b'', rec_userId := ''u2'' \<rparr>]
   \<and> set (snap_strokes (getSnapshot (fromPersisted (exportPersisted 12 ds_mixed))))
       = {rec_example\<lparr> rec_committed := True, updatedAt := 11 \<rparr>}
   \<and> set (snap_undone (getSnapshot (fromPersisted (exportPersisted 12 ds_mixed)))) = {''a''}
   \<and> snap_inProgress (getSnapshot (fromPersisted (exportPersisted 12 ds_mixed))) = []"
  using persist_restore_snapshot [of ds_mixed 12]
  by (simp add: ds_wf_def ds_mixed_def ds_undone_def ds_committed_def rec_example_def
      getSnapshot_def map_values_def)

text \<open>
  Claim C4 as stated covers every drawing state. The state restored from a snapshot that
  holds a committed stroke \<open>a\<close> and an empty \<open>committedOrder\<close> shows \<open>a\<close> in its snapshot
  view. \<open>exportPersisted\<close> walks \<open>committedOrder\<close> and exports no stroke, so the snapshot
  view of the state restored from that export has none.
\<close>

theorem round_trip_drops_unlisted_stroke:
  "snap_strokes (getSnapshot ds_orphan) = [rec_example\<lparr> rec_committed := True \<rparr>]
   \<and> snap_strokes (getSnapshot (fromPersisted (exportPersisted 0 ds_orphan))) = []
   \<and> set (snap_strokes (getSnapshot (fromPersisted (exportPersisted 0 ds_orphan))))
       \<noteq> set (snap_strokes (getSnapshot ds_orphan))"
proof -
  have s: "ds_orphan =
      \<lparr> strokes = [(''a'', rec_example\<lparr> rec_committed := True \<rparr>)],
        committed = [''a''], undone = [], committedOrder = [], redoStack = [] \<rparr>"
    by (simp add: ds_orphan_def fromPersisted_def restore_step_def new_DrawingState_def
        map_set_def set_add_def new_Set_def rec_example_def)
  have 1: "snap_strokes (getSnapshot ds_orphan) = [rec_example\<lparr> rec_committed := True \<rparr>]"
    unfolding s by (simp add: getSnapshot_def map_values_def rec_example_def)
  have 2: "snap_strokes (getSnapshot (fromPersisted (exportPersisted 0 ds_orphan))) = []"
    unfolding s
    by (simp add: getSnapshot_def map_values_def exportPersisted_def fromPersisted_def
        new_DrawingState_def)
  from 1 2 show ?thesis by simp
qed

subsection \<open>The dispatcher and the sequence counter\<close>

lemma isWrite_all: "isWrite op"
proof (cases op)
  case (CStroke so)
  then show ?thesis by (cases so) simp_all
qed simp_all

lemma on_msg_joined:
  assumes "joined_editor rooms socket rid room user" "validateClientOp raw = Inr op"
  shows "on_msg now rooms socket raw = dispatch_op now rooms rid room user op"
  using assms by (simp add: on_msg_def joined_editor_def)

lemma on_msg_cases:
  obtains (rejected) err where "on_msg now rooms socket raw = rejected rooms err"
  | (dispatched) rid room user op where "joined_editor rooms socket rid room user"
      "validateClientOp raw = Inr op"
      "on_msg now rooms socket raw = dispatch_op now rooms rid room user op"
proof (cases "\<exists>rid room user op. joined_editor rooms socket rid room user
                 \<and> validateClientOp raw = Inr op")
  case True
  then obtain rid room user op where j: "joined_editor rooms socket rid room user"
    and v: "validateClientOp raw = Inr op" by blast
  then show ?thesis using dispatched on_msg_joined by blast
next
  case False
  from False have "\<exists>err. on_msg now rooms socket raw = rejected rooms err"
    unfolding on_msg_def joined_editor_def
    by (auto simp: isWrite_all split: option.splits sum.splits) (metis Mode.exhaust)
  then show ?thesis using rejected by blast
qed

lemma seq_of_map_set:
  "seq_of (map_set rid room rooms) r = (if r = rid then Some (seq room) else seq_of rooms r)"
  by (simp add: seq_of_def map_get_def map_set_def update_conv)

lemma dispatch_none:
  assumes "applyClientOp now (su_userId user) (drawing room) op = (d, Inr None)"
  shows "dispatch_op now rooms rid room user op =
           \<lparr> out_rooms = map_set rid (room\<lparr> drawing := d \<rparr>) rooms,
             out_ack = AckNoOp, out_emitted = [], out_saved = None \<rparr>"
  using assms by (simp add: dispatch_op_def)

lemma dispatch_err:
  assumes "applyClientOp now (su_userId user) (drawing room) op = (d, Inl err)"
  shows "dispatch_op now rooms rid room user op =
           \<lparr> out_rooms = map_set rid (room\<lparr> drawing := d \<rparr>) rooms,
             out_ack = AckErr err, out_emitted = [], out_saved = None \<rparr>"
  using assms by (simp add: dispatch_op_def)

lemma dispatch_some:
  assumes "applyClientOp now (su_userId user) (drawing room) op = (d, Inr (Some b))"
  shows "out_ack (dispatch_op now rooms rid room user op) = AckSeq (seq room + 1)
         \<and> out_emitted (dispatch_op now rooms rid room user op) =
             [(rid, \<lparr> env_seq = seq room + 1, env_op = b, env_by = su_userId user,
                      env_ts = now \<rparr>)]
         \<and> seq_of (out_rooms (dispatch_op now rooms rid room user op)) rid = Some (seq room + 1)"
  using assms
  by (simp add: dispatch_op_def bumpSeq_def maybePersist_def Let_def seq_of_map_set
      split: prod.splits)

text \<open>
  Claim C5. For a joined editing user and an op on which \<open>applyClientOp\<close> succeeds with no
  broadcast (an undo or redo with nothing to do), the handler acknowledges
  \<open>{ok: true, noOp: true}\<close>, emits no envelope and leaves the room's \<open>seq\<close> as it was. In
  general one run of the handler either emits nothing and changes no room's \<open>seq\<close>, or
  \<open>applyClientOp\<close> produced a broadcast op, exactly one envelope is emitted and the \<open>seq\<close>
  of that room alone goes up by exactly one.
\<close>

theorem noop_is_acknowledged_without_seq:
  "(joined_editor rooms socket rid room user \<longrightarrow> validateClientOp raw = Inr op \<longrightarrow>
      applyClientOp now (su_userId user) (drawing room) op = (d, Inr None) \<longrightarrow>
        out_ack (on_msg now rooms socket raw) = AckNoOp
        \<and> out_emitted (on_msg now rooms socket raw) = []
        \<and> seq_of (out_rooms (on_msg now rooms socket raw)) rid = Some (seq room))
   \<and> ((out_emitted (on_msg now rooms socket raw) = []
        \<and> (\<forall>r. seq_of (out_rooms (on_msg now rooms socket raw)) r = seq_of rooms r))
       \<or> (\<exists>rid room user op d broadcast.
            joined_editor rooms socket rid room user \<and> validateClientOp raw = Inr op
            \<and> applyClientOp now (su_userId user) (drawing room) op = (d, Inr (Some broadcast))
            \<and> out_ack (on_msg now rooms socket raw) = AckSeq (seq room + 1)
            \<and> out_emitted (on_msg now rooms socket raw) =
                [(rid, \<lparr> env_seq = seq room + 1, env_op = broadcast,
                         env_by = su_userId user, env_ts = now \<rparr>)]
            \<and> seq_of (out_rooms (on_msg now rooms socket raw)) rid = Some (seq room + 1)
            \<and> (\<forall>r. r \<noteq> rid \<longrightarrow>
                  seq_of (out_rooms (on_msg now rooms socket raw)) r = seq_of rooms r)))"
proof (intro conjI impI)
  assume j: "joined_editor rooms socket rid room user" and v: "validateClientOp raw = Inr op"
    and a: "applyClientOp now (su_userId user) (drawing room) op = (d, Inr None)"
  have "on_msg now rooms socket raw =
          \<lparr> out_rooms = map_set rid (room\<lparr> drawing := d \<rparr>) rooms,
            out_ack = AckNoOp, out_emitted = [], out_saved = None \<rparr>"
    using on_msg_joined [OF j v] dispatch_none [OF a] by simp
  then show "out_ack (on_msg now rooms socket raw) = AckNoOp"
    "out_emitted (on_msg now rooms socket raw) = []"
    "seq_of (out_rooms (on_msg now rooms socket raw)) rid = Some (seq room)"
    by (simp_all add: seq_of_map_set)
next
  let ?out = "on_msg now rooms socket raw"
  show "(out_emitted ?out = [] \<and> (\<forall>r. seq_of (out_rooms ?out) r = seq_of rooms r))
       \<or> (\<exists>rid room user op d broadcast.
            joined_editor rooms socket rid room user \<and> validateClientOp raw = Inr op
            \<and> applyClientOp now (su_userId user) (drawing room) op = (d, Inr (Some broadcast))
            \<and> out_ack ?out = AckSeq (seq room + 1)
            \<and> out_emitted ?out =
                [(rid, \<lparr> env_seq = seq room + 1, env_op = broadcast,
                         env_by = su_userId user, env_ts = now \<rparr>)]
            \<and> seq_of (out_rooms ?out) rid = Some (seq room + 1)
            \<and> (\<forall>r. r \<noteq> rid \<longrightarrow> seq_of (out_rooms ?out) r = seq_of rooms r))"
  proof (cases rule: on_msg_cases [of now rooms socket raw])
    case (rejected err)
    then show ?thesis by (simp add: rejected_def)
  next
    case (dispatched rid room user op)
    have here: "seq_of rooms rid = Some (seq room)"
      using dispatched(1) by (simp add: joined_editor_def seq_of_def)
    obtain d res where a: "applyClientOp now (su_userId user) (drawing room) op = (d, res)"
      by (cases "applyClientOp now (su_userId user) (drawing room) op") auto
    show ?thesis
    proof (cases res)
      case (Inl err)
      with a dispatched(3) here show ?thesis
        by (auto simp: dispatch_err seq_of_map_set)
    next
      case (Inr b)
      show ?thesis
      proof (cases b)
        case None
        with a Inr dispatched(3) here show ?thesis
          by (auto simp: dispatch_none seq_of_map_set)
      next
        case (Some broadcast)
        with a Inr have a': "applyClientOp now (su_userId user) (drawing room) op
                               = (d, Inr (Some broadcast))" by simp
        have other: "\<forall>r. r \<noteq> rid \<longrightarrow> seq_of (out_rooms ?out) r = seq_of rooms r"
          using a' dispatched(3)
          by (simp add: dispatch_op_def bumpSeq_def maybePersist_def Let_def seq_of_map_set
              split: prod.splits)
        from dispatch_some [OF a', of rooms rid] dispatched other a' show ?thesis
          by (intro disjI2 exI [of _ rid] exI [of _ room] exI [of _ user] exI [of _ op]
              exI [of _ d] exI [of _ broadcast]) simp
      qed
    qed
  qed
qed

theorem noop_is_acknowledged_without_seq_witness:
  "joined_editor [(''r1'', room_example)] socket_example ''r1'' room_example user_example
   \<and> validateClientOp (JObj [(''t'', JStr ''undo'')]) = Inr UndoReq
   \<and> applyClientOp 5000 (su_userId user_example) (drawing room_example) UndoReq
       = (new_DrawingState, Inr None)
   \<and> out_ack (on_msg 5000 [(''r1'', room_example)] socket_example (JObj [(''t'', JStr ''undo'')]))
       = AckNoOp
   \<and> out_emitted (on_msg 5000 [(''r1'', room_example)] socket_example (JObj [(''t'', JStr ''undo'')]))
       = []
   \<and> seq_of (out_rooms (on_msg 5000 [(''r1'', room_example)] socket_example
         (JObj [(''t'', JStr ''undo'')]))) ''r1'' = Some (seq room_example)
   \<and> seq room_example = 7"
proof -
  have j: "joined_editor [(''r1'', room_example)] socket_example ''r1'' room_example user_example"
    by (simp add: joined_editor_def room_example_def user_example_def socket_example_def
        map_get_def getUser_def)
  have v: "validateClientOp (JObj [(''t'', JStr ''undo'')]) = Inr UndoReq"
    by (simp add: validateClientOp_def)
  have a: "applyClientOp 5000 (su_userId user_example) (drawing room_example) UndoReq
             = (new_DrawingState, Inr None)"
    by (simp add: room_example_def new_DrawingState_def)
  have s: "seq room_example = 7"
    by (simp add: room_example_def)
  from noop_is_acknowledged_without_seq [where rooms = "[(''r1'', room_example)]"
      and socket = socket_example and rid = "''r1''" and room = room_example
      and user = user_example and raw = "JObj [(''t'', JStr ''undo'')]" and op = UndoReq
      and now = 5000 and d = new_DrawingState] j v a s
  show ?thesis by blast
qed

subsection \<open>The validator\<close>

lemma validate_start_accepted:
  assumes "validateClientOp raw = Inr (CStroke (StrokeStart sid tool color w x y))"
  shows "\<exists>raw_w. get_prop raw ''w'' = JNum raw_w \<and> w = max 1 (min 64 raw_w)"
proof -
  have num: "isNum v = Some r \<Longrightarrow> v = JNum r" for v r
    by (cases v) simp_all
  from assms have "validate_stroke_start raw = Inr (CStroke (StrokeStart sid tool color w x y))"
    by (auto simp: validateClientOp_def validate_stroke_points_def validate_stroke_end_def
        Let_def split: if_splits option.splits)
  then show ?thesis
    by (auto simp: validate_stroke_start_def Let_def dest: num split: option.splits)
qed

lemma validate_raw_start:
  "validateClientOp (raw_start width)
     = Inr (CStroke (StrokeStart ''s1'' Brush ''#000'' (max 1 (min 64 width)) 0 0))"
  by (simp add: raw_start_def validateClientOp_def validate_stroke_start_def)

text \<open>
  Claim C8, as amended. For every payload that \<open>validateClientOp\<close> accepts as a
  \<open>stroke_start\<close>, the stored width is the payload's width \<open>w\<close> clamped to the interval
  from 1 to 64, \<open>max 1 (min 64 w)\<close>: a number between 1 and 64, equal to 1 for \<open>w \<le> 1\<close>
  (so for 0.1), to 64 for \<open>w \<ge> 64\<close> (so for 999), and to \<open>w\<close> itself in between. Nothing
  rounds it.
\<close>

theorem stroke_start_width_clamped:
  assumes "validateClientOp raw = Inr (CStroke (StrokeStart sid tool color w x y))"
  shows "\<exists>raw_w. get_prop raw ''w'' = JNum raw_w \<and> w = max 1 (min 64 raw_w)
           \<and> 1 \<le> w \<and> w \<le> 64
           \<and> (raw_w \<le> 1 \<longrightarrow> w = 1) \<and> (64 \<le> raw_w \<longrightarrow> w = 64)
           \<and> (1 \<le> raw_w \<and> raw_w \<le> 64 \<longrightarrow> w = raw_w)"
proof -
  from validate_start_accepted [OF assms]
  obtain raw_w where "get_prop raw ''w'' = JNum raw_w" "w = max 1 (min 64 raw_w)"
    by blast
  then show ?thesis by (intro exI [of _ raw_w]) auto
qed

theorem stroke_start_width_clamped_witness:
  "validateClientOp (raw_start (1 / 10)) = Inr (CStroke (StrokeStart ''s1'' Brush ''#000'' 1 0 0))
   \<and> validateClientOp (raw_start 999) = Inr (CStroke (StrokeStart ''s1'' Brush ''#000'' 64 0 0))
   \<and> get_prop (raw_start (1 / 10)) ''w'' = JNum (1 / 10)
   \<and> get_prop (raw_start 999) ''w'' = JNum 999"
proof -
  have lo: "validateClientOp (raw_start (1 / 10))
              = Inr (CStroke (StrokeStart ''s1'' Brush ''#000'' 1 0 0))"
    by (simp add: validate_raw_start)
  have hi: "validateClientOp (raw_start 999)
              = Inr (CStroke (StrokeStart ''s1'' Brush ''#000'' 64 0 0))"
    by (simp add: validate_raw_start)
  from stroke_start_width_clamped [OF lo] stroke_start_width_clamped [OF hi] lo hi
  show ?thesis by (simp add: raw_start_def)
qed

text \<open>
  Claim C8 as stated says that the stored width is an integer. The width 2.5 is accepted
  and stored as 2.5.
\<close>

theorem stroke_start_width_not_integer:
  "validateClientOp (raw_start (5 / 2))
     = Inr (CStroke (StrokeStart ''s1'' Brush ''#000'' (5 / 2) 0 0))
   \<and> (5 / 2 :: real) \<notin> \<int>"
proof
  show "validateClientOp (raw_start (5 / 2))
     = Inr (CStroke (StrokeStart ''s1'' Brush ''#000'' (5 / 2) 0 0))"
    by (simp add: validate_raw_start)
  have "of_int \<lfloor>5 / 2 :: real\<rfloor> \<noteq> (5 / 2 :: real)" by simp
  then show "(5 / 2 :: real) \<notin> \<int>"
    by (simp add: of_int_floor_cancel [symmetric] del: of_int_floor_cancel)
qed

text \<open>
  Claim C9, as amended. For a join payload with a room id and a string \<open>clientId\<close>, the
  user id is the \<open>clientId\<close> itself when it has between 1 and 64 code units (then it is its
  own prefix of 64 units), and the connection id otherwise: a \<open>clientId\<close> of more than 64
  code units is dropped by the guard of \<open>validateJoin\<close>, not truncated.
\<close>

theorem client_id_guarded_not_truncated:
  assumes "isObj raw" "isStr (get_prop raw ''roomId'') = Some rid"
    "get_prop raw ''clientId'' = JStr c"
  shows "resolve_userId raw conn = Some (if 0 < length c \<and> length c \<le> 64 then c else conn)
         \<and> (0 < length c \<and> length c \<le> 64 \<longrightarrow> resolve_userId raw conn = Some (take 64 c))
         \<and> (64 < length c \<longrightarrow> resolve_userId raw conn = Some conn)"
  using assms
  by (auto simp: resolve_userId_def validateJoin_def join_userId_def Let_def)

theorem client_id_guarded_not_truncated_witness:
  "isObj (raw_join ''client-7'') \<and> isStr (get_prop (raw_join ''client-7'') ''roomId'') = Some ''r1''
   \<and> get_prop (raw_join ''client-7'') ''clientId'' = JStr ''client-7''
   \<and> resolve_userId (raw_join ''client-7'') ''sock1'' = Some ''client-7''
   \<and> get_prop (raw_join (replicate 65 CHR ''x'')) ''clientId'' = JStr (replicate 65 CHR ''x'')
   \<and> 64 < length (replicate 65 CHR ''x'')
   \<and> resolve_userId (raw_join (replicate 65 CHR ''x'')) ''sock2'' = Some ''sock2''"
proof -
  have short: "isObj (raw_join ''client-7'')
      \<and> isStr (get_prop (raw_join ''client-7'') ''roomId'') = Some ''r1''
      \<and> get_prop (raw_join ''client-7'') ''clientId'' = JStr ''client-7''"
    by (simp add: raw_join_def)
  have long: "isObj (raw_join (replicate 65 CHR ''x''))
      \<and> isStr (get_prop (raw_join (replicate 65 CHR ''x'')) ''roomId'') = Some ''r1''
      \<and> get_prop (raw_join (replicate 65 CHR ''x'')) ''clientId'' = JStr (replicate 65 CHR ''x'')"
    by (simp add: raw_join_def)
  have len: "64 < length (replicate 65 CHR ''x'')" "0 < length ''client-7'' \<and> length ''client-7'' \<le> 64"
    by simp_all
  from client_id_guarded_not_truncated [where raw = "raw_join ''client-7''" and rid = "''r1''"
      and c = "''client-7''" and conn = "''sock1''"] short len
  have a: "resolve_userId (raw_join ''client-7'') ''sock1'' = Some ''client-7''"
    by simp
  from client_id_guarded_not_truncated [where raw = "raw_join (replicate 65 CHR ''x'')"
      and rid = "''r1''" and c = "replicate 65 CHR ''x''" and conn = "''sock2''"] long len
  have b: "resolve_userId (raw_join (replicate 65 CHR ''x'')) ''sock2'' = Some ''sock2''"
    by blast
  from short long len a b show ?thesis by blast
qed

text \<open>
  Claim C9 as stated says that a \<open>clientId\<close> of more than 64 code units determines the user id
  through its prefix of 64 units. With 65 units the user id is the connection id.
\<close>

theorem long_client_id_is_ignored:
  "resolve_userId (raw_join (replicate 65 CHR ''x'')) ''sock1'' = Some ''sock1''
   \<and> resolve_userId (raw_join (replicate 65 CHR ''x'')) ''sock1''
       \<noteq> Some (take 64 (replicate 65 CHR ''x''))"
proof -
  have r: "resolve_userId (raw_join (replicate 65 CHR ''x'')) ''sock1'' = Some ''sock1''"
    by (simp add: resolve_userId_def validateJoin_def join_userId_def raw_join_def Let_def)
  have "length (take 64 (replicate 65 CHR ''x'')) = 64" by simp
  moreover have "length ''sock1'' = 5" by simp
  ultimately have "''sock1'' \<noteq> take 64 (replicate 65 CHR ''x'')"
    by (metis numeral_eq_iff semiring_norm(88))
  with r show ?thesis by simp
qed

text \<open>
  Claim C10. \<open>validateClientOp\<close> accepts a \<open>stroke_points\<close> op whose \<open>pts\<close> array is empty.
  Applied by the owner of an uncommitted stroke, the op succeeds, is its own broadcast and
  leaves the points of the stroke as they were (only \<open>updatedAt\<close> is written); the handler
  gives it the next sequence number and emits its envelope.
\<close>

theorem empty_points_batch_is_sequenced:
  "(isObj raw \<and> get_prop raw ''t'' = JStr ''stroke_points''
      \<and> isStr (get_prop raw ''strokeId'') = Some sid \<and> get_prop raw ''pts'' = JArr [] \<longrightarrow>
      validateClientOp raw = Inr (CStroke (StrokePoints sid [])))
   \<and> (map_get (strokes s) sid = Some rec \<and> \<not> rec_committed rec \<and> rec_userId rec = uid \<longrightarrow>
        applyClientOp now uid s (CStroke (StrokePoints sid [])) =
          (s\<lparr> strokes := map_set sid (rec\<lparr> updatedAt := now \<rparr>) (strokes s) \<rparr>,
           Inr (Some (SStroke (StrokePoints sid []))))
        \<and> map_option rec_points
            (map_get (strokes (fst (applyClientOp now uid s (CStroke (StrokePoints sid []))))) sid)
          = Some (rec_points rec))
   \<and> (joined_editor rooms socket rid room user
        \<and> validateClientOp raw = Inr (CStroke (StrokePoints sid []))
        \<and> map_get (strokes (drawing room)) sid = Some rec \<and> \<not> rec_committed rec
        \<and> rec_userId rec = su_userId user \<longrightarrow>
        out_ack (on_msg now rooms socket raw) = AckSeq (seq room + 1)
        \<and> out_emitted (on_msg now rooms socket raw) =
            [(rid, \<lparr> env_seq = seq room + 1, env_op = SStroke (StrokePoints sid []),
                     env_by = su_userId user, env_ts = now \<rparr>)]
        \<and> seq_of (out_rooms (on_msg now rooms socket raw)) rid = Some (seq room + 1))"
proof (intro conjI impI)
  assume "isObj raw \<and> get_prop raw ''t'' = JStr ''stroke_points''
      \<and> isStr (get_prop raw ''strokeId'') = Some sid \<and> get_prop raw ''pts'' = JArr []"
  then show "validateClientOp raw = Inr (CStroke (StrokePoints sid []))"
    by (simp add: validateClientOp_def validate_stroke_points_def)
next
  assume a: "map_get (strokes s) sid = Some rec \<and> \<not> rec_committed rec \<and> rec_userId rec = uid"
  then show ap: "applyClientOp now uid s (CStroke (StrokePoints sid [])) =
          (s\<lparr> strokes := map_set sid (rec\<lparr> updatedAt := now \<rparr>) (strokes s) \<rparr>,
           Inr (Some (SStroke (StrokePoints sid []))))"
    by simp
  show "map_option rec_points
            (map_get (strokes (fst (applyClientOp now uid s (CStroke (StrokePoints sid []))))) sid)
          = Some (rec_points rec)"
    unfolding ap by (simp add: map_get_def map_set_def update_conv)
next
  assume a: "joined_editor rooms socket rid room user
        \<and> validateClientOp raw = Inr (CStroke (StrokePoints sid []))
        \<and> map_get (strokes (drawing room)) sid = Some rec \<and> \<not> rec_committed rec
        \<and> rec_userId rec = su_userId user"
  then have ap: "applyClientOp now (su_userId user) (drawing room) (CStroke (StrokePoints sid [])) =
          ((drawing room)\<lparr> strokes := map_set sid (rec\<lparr> updatedAt := now \<rparr>)
                                       (strokes (drawing room)) \<rparr>,
           Inr (Some (SStroke (StrokePoints sid []))))"
    by simp
  from a have om: "on_msg now rooms socket raw =
      dispatch_op now rooms rid room user (CStroke (StrokePoints sid []))"
    using on_msg_joined by blast
  from dispatch_some [OF ap, of rooms rid]
  show "out_ack (on_msg now rooms socket raw) = AckSeq (seq room + 1)"
    "out_emitted (on_msg now rooms socket raw) =
            [(rid, \<lparr> env_seq = seq room + 1, env_op = SStroke (StrokePoints sid []),
                     env_by = su_userId user, env_ts = now \<rparr>)]"
    "seq_of (out_rooms (on_msg now rooms socket raw)) rid = Some (seq room + 1)"
    unfolding om by simp_all
qed

theorem empty_points_batch_is_sequenced_witness:
  "validateClientOp raw_points = Inr (CStroke (StrokePoints ''a'' []))
   \<and> joined_editor [(''r1'', room_drawing)] socket_example ''r1'' room_drawing user_example
   \<and> map_get (strokes (drawing room_drawing)) ''a'' = Some rec_example
   \<and> \<not> rec_committed rec_example \<and> rec_userId rec_example = su_userId user_example
   \<and> seq room_drawing = 7
   \<and> out_ack (on_msg 5000 [(''r1'', room_drawing)] socket_example raw_points) = AckSeq 8
   \<and> map_option rec_points
        (map_get (strokes (fst (applyClientOp 5000 ''u1'' ds_in_progress
           (CStroke (StrokePoints ''a'' []))))) ''a'')
       = Some [(0, 0)]"
proof -
  have r: "isObj raw_points \<and> get_prop raw_points ''t'' = JStr ''stroke_points''
      \<and> isStr (get_prop raw_points ''strokeId'') = Some ''a''
      \<and> get_prop raw_points ''pts'' = JArr []"
    by (simp add: raw_points_def)
  have j: "joined_editor [(''r1'', room_drawing)] socket_example ''r1'' room_drawing user_example"
    by (simp add: joined_editor_def room_drawing_def room_example_def user_example_def
        socket_example_def map_get_def getUser_def)
  have g: "map_get (strokes (drawing room_drawing)) ''a'' = Some rec_example
      \<and> \<not> rec_committed rec_example \<and> rec_userId rec_example = su_userId user_example"
    by (simp add: room_drawing_def ds_in_progress_def rec_example_def user_example_def
        map_get_def)
  have g': "map_get (strokes ds_in_progress) ''a'' = Some rec_example
      \<and> \<not> rec_committed rec_example \<and> rec_userId rec_example = ''u1''"
    by (simp add: ds_in_progress_def rec_example_def map_get_def)
  have n: "seq room_drawing = 7" "rec_points rec_example = [(0, 0)]"
    by (simp_all add: room_drawing_def room_example_def rec_example_def)
  note inst = empty_points_batch_is_sequenced [where raw = raw_points and sid = "''a''"
      and rooms = "[(''r1'', room_drawing)]" and socket = socket_example and rid = "''r1''"
      and room = room_drawing and user = user_example and rec = rec_example and now = 5000
      and s = ds_in_progress and uid = "''u1''"]
  from inst r have v: "validateClientOp raw_points = Inr (CStroke (StrokePoints ''a'' []))"
    by blast
  from inst j v g have "out_ack (on_msg 5000 [(''r1'', room_drawing)] socket_example raw_points)
      = AckSeq (seq room_drawing + 1)"
    by blast
  moreover from inst g' have "map_option rec_points
        (map_get (strokes (fst (applyClientOp 5000 ''u1'' ds_in_progress
           (CStroke (StrokePoints ''a'' []))))) ''a'')
       = Some (rec_points rec_example)"
    by blast
  ultimately show ?thesis
    using v j g n by simp
qed

subsection \<open>The client reorder buffer\<close>

lemma contiguous_run_unique:
  assumes "contiguous_run p k es" "contiguous_run p k es'"
  shows "es = es'"
proof -
  have len: "length xs \<le> length ys" if "contiguous_run p k xs" "contiguous_run p k ys"
    for xs ys
  proof (rule ccontr)
    assume "\<not> length xs \<le> length ys"
    then have "length ys < length xs" by simp
    with that(1) have "map_get p (k + length ys) = Some (xs ! length ys)"
      by (simp add: contiguous_run_def)
    with that(2) show False by (simp add: contiguous_run_def)
  qed
  have l: "length es = length es'"
    using len [OF assms] len [OF assms(2) assms(1)] by simp
  show ?thesis
  proof (rule nth_equalityI [OF l])
    fix i assume "i < length es"
    with assms l show "es ! i = es' ! i"
      by (auto simp: contiguous_run_def)
  qed
qed

lemma flush_pending_run:
  "\<exists>es. contiguous_run (pending c) (expectedSeq c) es
        \<and> flush_pending now c =
            c\<lparr> store := fold (applyEnvelope now) es (store c),
               expectedSeq := expectedSeq c + length es,
               pending := fold map_delete [expectedSeq c ..< expectedSeq c + length es]
                            (pending c) \<rparr>"
proof (induction now c rule: flush_pending.induct)
  case (1 now c)
  let ?k = "expectedSeq c"
  show ?case
  proof (cases "map_get (pending c) ?k")
    case None
    then have "contiguous_run (pending c) ?k []"
      by (simp add: contiguous_run_def)
    moreover from None have "flush_pending now c = c"
      by (simp add: flush_pending.simps [of now c])
    ultimately show ?thesis
      by (intro exI [of _ "[]"]) simp
  next
    case (Some nxt)
    let ?c1 = "c\<lparr> pending := map_delete ?k (pending c),
                   store := applyEnvelope now nxt (store c),
                   expectedSeq := ?k + 1 \<rparr>"
    from "1.IH" [OF Some] obtain es where
      run: "contiguous_run (pending ?c1) (expectedSeq ?c1) es" and
      fl: "flush_pending now ?c1 =
             ?c1\<lparr> store := fold (applyEnvelope now) es (store ?c1),
                   expectedSeq := expectedSeq ?c1 + length es,
                   pending := fold map_delete [expectedSeq ?c1 ..< expectedSeq ?c1 + length es]
                                (pending ?c1) \<rparr>"
      by blast
    have other: "map_get (map_delete ?k (pending c)) j = map_get (pending c) j" if "j \<noteq> ?k" for j
      using that by (simp add: map_get_def map_delete_def delete_conv)
    have "contiguous_run (pending c) ?k (nxt # es)"
      unfolding contiguous_run_def
    proof (intro conjI allI impI)
      fix i assume "i < length (nxt # es)"
      show "map_get (pending c) (?k + i) = Some ((nxt # es) ! i)"
      proof (cases i)
        case 0
        with Some show ?thesis by simp
      next
        case (Suc j)
        with \<open>i < length (nxt # es)\<close> have "j < length es" by simp
        with run have "map_get (map_delete ?k (pending c)) (?k + 1 + j) = Some (es ! j)"
          by (simp add: contiguous_run_def)
        with Suc show ?thesis by (simp add: other)
      qed
    next
      from run have "map_get (map_delete ?k (pending c)) (?k + 1 + length es) = None"
        by (simp add: contiguous_run_def)
      then show "map_get (pending c) (?k + length (nxt # es)) = None"
        by (simp add: other)
    qed
    moreover have "flush_pending now c = flush_pending now ?c1"
      using Some by (simp add: flush_pending.simps [of now c])
    moreover have "[?k ..< Suc (?k + length es)] = ?k # [Suc ?k ..< Suc (?k + length es)]"
      by (rule upt_conv_Cons) simp
    ultimately show ?thesis
      using fl by (intro exI [of _ "nxt # es"]) simp
  qed
qed

text \<open>
  Claim C7, as amended. Before the store has a room id (before the first sync) the client
  ignores every envelope. Once it has one, an envelope with sequence number \<open>n\<close> is dropped
  when \<open>n < expectedSeq\<close>, stored in \<open>pending\<close> and not applied when \<open>n > expectedSeq\<close>,
  and when \<open>n = expectedSeq\<close> it is applied to the store, followed in order by the buffered
  envelopes with the next sequence numbers up to the first gap, which leave the buffer;
  \<open>expectedSeq\<close> ends one after the last envelope applied. With \<open>expectedSeq = 5\<close>, an
  empty buffer and arrivals 7, 6, 5, the store applies 5, 6, 7 and \<open>expectedSeq\<close> is 8.
\<close>

theorem reorder_buffer_after_sync:
  "(st_roomId (store c) = None \<or> st_roomId (store c) = Some [] \<longrightarrow>
      handleEnvelope now c env = c)
   \<and> (st_roomId (store c) = Some rid \<and> rid \<noteq> [] \<longrightarrow>
        (env_seq env < expectedSeq c \<longrightarrow> handleEnvelope now c env = c)
        \<and> (expectedSeq c < env_seq env \<longrightarrow>
              handleEnvelope now c env = c\<lparr> pending := map_set (env_seq env) env (pending c) \<rparr>)
        \<and> (env_seq env = expectedSeq c \<longrightarrow>
              (\<exists>es. contiguous_run (pending c) (expectedSeq c + 1) es
                 \<and> handleEnvelope now c env =
                     c\<lparr> store := fold (applyEnvelope now) (env # es) (store c),
                        expectedSeq := expectedSeq c + 1 + length es,
                        pending := fold map_delete
                                     [expectedSeq c + 1 ..< expectedSeq c + 1 + length es]
                                     (pending c) \<rparr>))
        \<and> (expectedSeq c = 5 \<and> pending c = []
             \<and> env_seq e5 = 5 \<and> env_seq e6 = 6 \<and> env_seq e7 = 7 \<longrightarrow>
              handleEnvelope t3 (handleEnvelope t2 (handleEnvelope t1 c e7) e6) e5 =
                c\<lparr> store := fold (applyEnvelope t3) [e5, e6, e7] (store c),
                   expectedSeq := 8, pending := [] \<rparr>))"
proof (intro conjI impI)
  assume "st_roomId (store c) = None \<or> st_roomId (store c) = Some []"
  then show "handleEnvelope now c env = c"
    by (auto simp: handleEnvelope_def)
next
  assume s: "st_roomId (store c) = Some rid \<and> rid \<noteq> []"
  {
    assume "env_seq env < expectedSeq c"
    with s show "handleEnvelope now c env = c"
      by (simp add: handleEnvelope_def)
  next
    assume "expectedSeq c < env_seq env"
    with s show "handleEnvelope now c env =
        c\<lparr> pending := map_set (env_seq env) env (pending c) \<rparr>"
      by (simp add: handleEnvelope_def)
  next
    assume e: "env_seq env = expectedSeq c"
    let ?c1 = "c\<lparr> store := applyEnvelope now env (store c), expectedSeq := expectedSeq c + 1 \<rparr>"
    from s e have h: "handleEnvelope now c env = flush_pending now ?c1"
      by (simp add: handleEnvelope_def)
    from flush_pending_run [of ?c1 now] obtain es where
      "contiguous_run (pending ?c1) (expectedSeq ?c1) es"
      "flush_pending now ?c1 =
         ?c1\<lparr> store := fold (applyEnvelope now) es (store ?c1),
               expectedSeq := expectedSeq ?c1 + length es,
               pending := fold map_delete [expectedSeq ?c1 ..< expectedSeq ?c1 + length es]
                            (pending ?c1) \<rparr>"
      by blast
    with h show "\<exists>es. contiguous_run (pending c) (expectedSeq c + 1) es
                 \<and> handleEnvelope now c env =
                     c\<lparr> store := fold (applyEnvelope now) (env # es) (store c),
                        expectedSeq := expectedSeq c + 1 + length es,
                        pending := fold map_delete
                                     [expectedSeq c + 1 ..< expectedSeq c + 1 + length es]
                                     (pending c) \<rparr>"
      by (intro exI [of _ es]) simp
  next
    assume a: "expectedSeq c = 5 \<and> pending c = []
             \<and> env_seq e5 = 5 \<and> env_seq e6 = 6 \<and> env_seq e7 = 7"
    let ?c7 = "c\<lparr> pending := [(7, e7)] \<rparr>"
    let ?c6 = "c\<lparr> pending := [(7, e7), (6, e6)] \<rparr>"
    from s a have 7: "handleEnvelope t1 c e7 = ?c7"
      by (simp add: handleEnvelope_def map_set_def)
    from s a have 6: "handleEnvelope t2 ?c7 e6 = ?c6"
      by (simp add: handleEnvelope_def map_set_def)
    from s a have 5: "handleEnvelope t3 ?c6 e5 =
        c\<lparr> store := fold (applyEnvelope t3) [e5, e6, e7] (store c),
           expectedSeq := 8, pending := [] \<rparr>"
      by (simp add: handleEnvelope_def flush_pending.simps map_get_def map_delete_def)
    show "handleEnvelope t3 (handleEnvelope t2 (handleEnvelope t1 c e7) e6) e5 =
                c\<lparr> store := fold (applyEnvelope t3) [e5, e6, e7] (store c),
                   expectedSeq := 8, pending := [] \<rparr>"
      by (simp only: 7 6 5)
  }
qed

theorem reorder_buffer_after_sync_witness:
  "st_roomId (store client_synced) = Some ''r1'' \<and> expectedSeq client_synced = 5
   \<and> pending client_synced = []
   \<and> handleEnvelope 10 client_synced (env_example 3 (UndoApplied ''s9'')) = client_synced
   \<and> handleEnvelope 10 client_synced (env_example 7 (RedoApplied ''s1''))
       = client_synced\<lparr> pending := [(7, env_example 7 (RedoApplied ''s1''))] \<rparr>
   \<and> handleEnvelope 30
        (handleEnvelope 20
          (handleEnvelope 10 client_synced (env_example 7 (RedoApplied ''s1'')))
          (env_example 6 (UndoApplied ''s1'')))
        (env_example 5 (UndoApplied ''s0''))
      = client_synced\<lparr> store := (store client_synced)\<lparr> st_seq := 7, st_undone := [''s0''] \<rparr>,
                       expectedSeq := 8 \<rparr>
   \<and> st_roomId (store new_RealtimeClient) = None
   \<and> handleEnvelope 10 new_RealtimeClient (env_example 1 (UndoApplied ''s0''))
       = new_RealtimeClient"
proof -
  let ?e3 = "env_example 3 (UndoApplied ''s9'')"
  let ?e5 = "env_example 5 (UndoApplied ''s0'')"
  let ?e6 = "env_example 6 (UndoApplied ''s1'')"
  let ?e7 = "env_example 7 (RedoApplied ''s1'')"
  have synced: "st_roomId (store client_synced) = Some ''r1'' \<and> ''r1'' \<noteq> []"
    by (simp add: client_synced_def)
  have scene: "expectedSeq client_synced = 5 \<and> pending client_synced = []
      \<and> env_seq ?e5 = 5 \<and> env_seq ?e6 = 6 \<and> env_seq ?e7 = 7"
    by (simp add: client_synced_def env_example_def)
  have early: "env_seq ?e3 < expectedSeq client_synced"
    and late: "expectedSeq client_synced < env_seq ?e7"
    by (simp_all add: client_synced_def env_example_def)
  have unsynced: "st_roomId (store new_RealtimeClient) = None"
    by (simp add: new_RealtimeClient_def new_RoomState_def)
  from reorder_buffer_after_sync [where c = client_synced and rid = "''r1''"
      and ?e5.0 = ?e5 and ?e6.0 = ?e6 and ?e7.0 = ?e7 and ?t1.0 = 10 and ?t2.0 = 20
      and ?t3.0 = 30 and now = 30 and env = ?e5] synced scene
  have run: "handleEnvelope 30 (handleEnvelope 20 (handleEnvelope 10 client_synced ?e7) ?e6) ?e5 =
          client_synced\<lparr> store := fold (applyEnvelope 30) [?e5, ?e6, ?e7] (store client_synced),
                          expectedSeq := 8, pending := [] \<rparr>"
    by blast
  from reorder_buffer_after_sync [where c = client_synced and rid = "''r1''" and now = 10
      and env = ?e3] synced early
  have dup: "handleEnvelope 10 client_synced ?e3 = client_synced"
    by blast
  from reorder_buffer_after_sync [where c = client_synced and rid = "''r1''" and now = 10
      and env = ?e7] synced late
  have buf: "handleEnvelope 10 client_synced ?e7 =
      client_synced\<lparr> pending := map_set (env_seq ?e7) ?e7 (pending client_synced) \<rparr>"
    by blast
  from reorder_buffer_after_sync [where c = new_RealtimeClient and now = 10
      and env = "env_example 1 (UndoApplied ''s0'')"] unsynced
  have pre: "handleEnvelope 10 new_RealtimeClient (env_example 1 (UndoApplied ''s0''))
      = new_RealtimeClient"
    by blast
  have 1: "handleEnvelope 10 client_synced ?e7 = client_synced\<lparr> pending := [(7, ?e7)] \<rparr>"
    unfolding buf by (simp add: client_synced_def env_example_def map_set_def)
  have 2: "handleEnvelope 30 (handleEnvelope 20 (handleEnvelope 10 client_synced ?e7) ?e6) ?e5
      = client_synced\<lparr> store := (store client_synced)\<lparr> st_seq := 7, st_undone := [''s0''] \<rparr>,
                       expectedSeq := 8 \<rparr>"
    unfolding run
    by (simp add: client_synced_def env_example_def new_RoomState_def applyEnvelope_def
        set_add_def set_delete_def)
  from synced scene dup 1 2 unsynced pre show ?thesis by simp
qed

text \<open>
  Claim C7 as stated covers every state of the buffer. A client that has not synced yet
  expects sequence number 1; an envelope with that number is neither applied nor counted.
\<close>

theorem unsynced_envelope_is_dropped:
  "env_seq (env_example 1 (UndoApplied ''s0'')) = expectedSeq new_RealtimeClient
   \<and> handleEnvelope 10 new_RealtimeClient (env_example 1 (UndoApplied ''s0''))
       = new_RealtimeClient
   \<and> expectedSeq (handleEnvelope 10 new_RealtimeClient (env_example 1 (UndoApplied ''s0'')))
       \<noteq> expectedSeq new_RealtimeClient + 1
   \<and> store (handleEnvelope 10 new_RealtimeClient (env_example 1 (UndoApplied ''s0'')))
       \<noteq> applyEnvelope 10 (env_example 1 (UndoApplied ''s0'')) (store new_RealtimeClient)"
  by (simp add: handleEnvelope_def new_RealtimeClient_def new_RoomState_def env_example_def
      applyEnvelope_def)

end
